theory Spec2Isabelle
  imports Main "HOL-Library.AList" "HOL-Library.Multiset"
begin

section \<open>JavaScript numbers that hold integers\<close>

text \<open>
  The winner tracker turns every on-chain \<open>value\<close> (a uint256, delivered as a big
  integer) into a JavaScript number with \<open>parseInt(value.toString())\<close> and from there
  on adds and subtracts JavaScript numbers, which are IEEE-754 doubles. All numbers that
  occur are integers, so a double is modelled by the integer it denotes, and every
  operation rounds its exact result to the nearest integer that a double can hold
  (53 significant bits, ties to the even significand). The model leaves out the
  overflow to \<open>Infinity\<close> above \<open>2 ^ 1024\<close>: amounts are below \<open>2 ^ 256\<close>, so no
  balance gets there. For a decimal string of more than 20 digits the language lets
  \<open>parseInt\<close> replace the digits after the 20th by zeros before it rounds; the model
  rounds the number as it stands, and nothing below depends on the difference: the
  results on exactness stay under \<open>2 ^ 53\<close>, which has 16 digits, and the others only
  use the sign of a number.
\<close>

function sig_shift :: "nat \<Rightarrow> nat" where
  "sig_shift m = (if m < 2 ^ 53 then 0 else Suc (sig_shift (m div 2)))"
  by pat_completeness auto
termination
  by (relation "measure (\<lambda>m. m)") auto

declare sig_shift.simps [simp del]

definition toNumber :: "int \<Rightarrow> int" where
  "toNumber x =
     (let m = nat \<bar>x\<bar>;
          e = sig_shift m;
          q = m div 2 ^ e;
          r = m mod 2 ^ e;
          q' = (if 2 ^ e < 2 * r \<or> (2 * r = 2 ^ e \<and> odd q) then q + 1 else q)
      in sgn x * int (q' * 2 ^ e))"

definition parseInt :: "nat \<Rightarrow> int" where
  "parseInt v = toNumber (int v)"

definition num_add :: "int \<Rightarrow> int \<Rightarrow> int" where
  "num_add a b = toNumber (a + b)"

definition num_sub :: "int \<Rightarrow> int \<Rightarrow> int" where
  "num_sub a b = toNumber (a - b)"

section \<open>The balance reconstruction of the winner tracker\<close>

text \<open>
  \<open>buildHolderSnapshot\<close> replays the \<open>TransferSingle\<close> events of one position id in
  windows of \<open>chunkSize\<close> blocks and folds them into a JavaScript \<open>Map\<close> from address
  to balance. A \<open>Map\<close> keeps its keys in insertion order, so it is an association list
  with distinct keys: \<open>get\<close> is \<^const>\<open>map_of\<close>, \<open>set\<close> is \<^const>\<open>AList.update\<close>
  (in place for a key that is there, at the end for a new one) and \<open>delete\<close> is
  \<^const>\<open>AList.delete\<close>.
\<close>

type_synonym address = string

definition ZeroAddress :: address where
  "ZeroAddress = ''0x0000000000000000000000000000000000000000''"

record transfer =
  ev_block :: int
  ev_id :: nat
  ev_from :: address
  ev_to :: address
  ev_value :: nat

type_synonym holders = "(address \<times> int) list"

text \<open>\<open>holders.get(a) || 0\<close>: a missing key and a stored \<open>0\<close> both give \<open>0\<close>.\<close>

definition get_or_zero :: "holders \<Rightarrow> address \<Rightarrow> int" where
  "get_or_zero holders a = (case map_of holders a of None \<Rightarrow> 0 | Some balance \<Rightarrow> balance)"

text \<open>
  The body of the inner loop, for one event: the sender's part (\<open>debit\<close>), skipped for
  a mint, then the receiver's part (\<open>credit\<close>), skipped for a burn.
\<close>

definition debit :: "address \<Rightarrow> int \<Rightarrow> holders \<Rightarrow> holders" where
  "debit a amount holders =
     (let currentBalance = get_or_zero holders a;
          newBalance = num_sub currentBalance amount
      in if newBalance \<le> 0 then AList.delete a holders
         else AList.update a newBalance holders)"

definition credit :: "address \<Rightarrow> int \<Rightarrow> holders \<Rightarrow> holders" where
  "credit a amount holders =
     (let currentBalance = get_or_zero holders a
      in AList.update a (num_add currentBalance amount) holders)"

definition apply_event :: "transfer \<Rightarrow> holders \<Rightarrow> holders" where
  "apply_event ev holders =
     (let amount = parseInt (ev_value ev);
          holders1 = (if ev_from ev \<noteq> ZeroAddress then debit (ev_from ev) amount holders
                      else holders)
      in if ev_to ev \<noteq> ZeroAddress then credit (ev_to ev) amount holders1 else holders1)"

definition process_events :: "transfer list \<Rightarrow> holders \<Rightarrow> holders" where
  "process_events events holders = fold apply_event events holders"

datatype rpc_error = RpcError string

text \<open>
  The outer loop. \<open>query start end\<close> stands for
  \<open>await this.contract.queryFilter(filter, start, end)\<close>, which either delivers the
  events of the window or throws. The window size is a parameter here, so that different
  sizes can be compared; it is positive (the source fixes it to \<open>10000\<close>), which is what
  makes the loop advance.
\<close>

function snapshot_loop ::
  "(int \<Rightarrow> int \<Rightarrow> rpc_error + transfer list) \<Rightarrow> int \<Rightarrow> int \<Rightarrow> int \<Rightarrow> holders
     \<Rightarrow> rpc_error + holders" where
  "snapshot_loop query cs start blockNumber holders =
     (if start \<le> blockNumber \<and> 0 < cs then
        (case query start (min (start + cs - 1) blockNumber) of
           Inl err \<Rightarrow> Inl err
         | Inr events \<Rightarrow>
             snapshot_loop query cs (start + cs) blockNumber (process_events events holders))
      else Inr holders)"
  by pat_completeness auto
termination
  by (relation "measure (\<lambda>(query, cs, start, blockNumber, holders). nat (blockNumber + 1 - start))")
    auto

declare snapshot_loop.simps [simp del]

definition chunkSize :: int where
  "chunkSize = 10000"

text \<open>The last loop: \<open>activeHolders\<close> takes over the entries with a positive balance.\<close>

definition active_holders :: "holders \<Rightarrow> holders" where
  "active_holders holders = filter (\<lambda>(address, balance). 0 < balance) holders"

text \<open>
  The result of the asynchronous function is a promise; \<open>Inl\<close> would be its rejection.
  The \<open>catch\<close> around the whole body turns every error of a query into the value
  \<open>new Map()\<close>.
\<close>

definition buildHolderSnapshotWith ::
  "int \<Rightarrow> (nat \<Rightarrow> int \<Rightarrow> int \<Rightarrow> rpc_error + transfer list) \<Rightarrow> nat \<Rightarrow> int
     \<Rightarrow> rpc_error + holders" where
  "buildHolderSnapshotWith cs queryFilter positionId blockNumber =
     (case snapshot_loop (queryFilter positionId) cs 0 blockNumber [] of
        Inr holders \<Rightarrow> Inr (active_holders holders)
      | Inl err \<Rightarrow> Inr [])"

definition buildHolderSnapshot ::
  "(nat \<Rightarrow> int \<Rightarrow> int \<Rightarrow> rpc_error + transfer list) \<Rightarrow> nat \<Rightarrow> int \<Rightarrow> rpc_error + holders" where
  "buildHolderSnapshot = buildHolderSnapshotWith chunkSize"

text \<open>The windows that the loop asks for, in the order it asks for them.\<close>

function windows :: "int \<Rightarrow> int \<Rightarrow> int \<Rightarrow> (int \<times> int) list" where
  "windows cs start blockNumber =
     (if start \<le> blockNumber \<and> 0 < cs then
        (start, min (start + cs - 1) blockNumber) # windows cs (start + cs) blockNumber
      else [])"
  by pat_completeness auto
termination
  by (relation "measure (\<lambda>(cs, start, blockNumber). nat (blockNumber + 1 - start))") auto

declare windows.simps [simp del]

text \<open>
  The events that a window covers: those events of a sequence whose block lies in the
  window, in the order of the sequence. A sequence is in chain order when its blocks do
  not decrease.
\<close>

definition events_between :: "transfer list \<Rightarrow> int \<Rightarrow> int \<Rightarrow> transfer list" where
  "events_between events fromBlock toBlock =
     filter (\<lambda>ev. fromBlock \<le> ev_block ev \<and> ev_block ev \<le> toBlock) events"

definition chain_ordered :: "transfer list \<Rightarrow> bool" where
  "chain_ordered events = sorted (map ev_block events)"

text \<open>
  The two nested loops with the events as input: the ledger is created once, before the
  outer loop, and every window folds the events it covers into it, in the order of the
  windows.
\<close>

definition fold_windows :: "int \<Rightarrow> transfer list \<Rightarrow> int \<Rightarrow> holders \<Rightarrow> holders" where
  "fold_windows cs events blockNumber holders =
     fold (\<lambda>w. process_events (events_between events (fst w) (snd w)))
       (windows cs 0 blockNumber) holders"

subsection \<open>The winner record\<close>

record winner =
  address :: address
  winningTokens :: int
  payoutUSDC :: int

record winner_data =
  marketId :: string
  winningOutcome :: string
  positionId :: nat
  resolutionBlock :: int
  winners :: "winner list"
  totalPayout :: int
  winnerCount :: nat
  timestamp :: string

text \<open>
  \<open>Array.from(holders.values()).reduce((sum, balance) => sum + balance, 0)\<close>: a sum of
  JavaScript numbers, from the left, in the order of the map.
\<close>

definition sum_balances :: "holders \<Rightarrow> int" where
  "sum_balances holders = foldl num_add 0 (map snd holders)"

definition make_winner_data ::
  "string \<Rightarrow> string \<Rightarrow> nat \<Rightarrow> int \<Rightarrow> string \<Rightarrow> holders \<Rightarrow> winner_data" where
  "make_winner_data mid outcome pid blockNumber isoTime holders =
     \<lparr>marketId = mid, winningOutcome = outcome, positionId = pid,
      resolutionBlock = blockNumber,
      winners = map (\<lambda>(a, balance). \<lparr>address = a, winningTokens = balance, payoutUSDC = balance\<rparr>)
                  holders,
      totalPayout = sum_balances holders,
      winnerCount = length holders,
      timestamp = isoTime\<rparr>"

text \<open>
  \<open>trackMarketWinners\<close>. The source's \<open>getPositionId\<close> is a stub that always returns
  \<open>null\<close> and says that the mapping needs a market-specific implementation, so the
  mapping is a parameter here; \<open>getPositionId_stub\<close> is the source's. A falsy position id
  (\<open>null\<close> or \<open>0\<close>) ends the operation with \<open>null\<close>. A falsy
  \<open>resolutionBlockNumber\<close> is replaced by the provider's current block, a call that can
  throw. Every error that reaches the outer \<open>catch\<close> gives \<open>null\<close>. The function
  returns its result and the updated \<open>marketWinners\<close> map.
\<close>

definition getPositionId_stub :: "string \<Rightarrow> string \<Rightarrow> nat option" where
  "getPositionId_stub mid outcome = None"

record chain_env =
  getPositionId :: "string \<Rightarrow> string \<Rightarrow> nat option"
  getBlockNumber :: "rpc_error + int"
  queryFilter :: "nat \<Rightarrow> int \<Rightarrow> int \<Rightarrow> rpc_error + transfer list"
  clock :: string

definition trackMarketWinners ::
  "chain_env \<Rightarrow> (string \<times> winner_data) list \<Rightarrow> string \<Rightarrow> string \<Rightarrow> int option
     \<Rightarrow> winner_data option \<times> (string \<times> winner_data) list" where
  "trackMarketWinners env marketWinners mid outcome resolutionBlockNumber =
     (case getPositionId env mid outcome of
        None \<Rightarrow> (None, marketWinners)
      | Some pid \<Rightarrow>
          if pid = 0 then (None, marketWinners)
          else
            (case (case resolutionBlockNumber of
                     Some b \<Rightarrow> if b \<noteq> 0 then Inr b else getBlockNumber env
                   | None \<Rightarrow> getBlockNumber env) of
               Inl err \<Rightarrow> (None, marketWinners)
             | Inr blockNumber \<Rightarrow>
                 (case buildHolderSnapshot (queryFilter env) pid blockNumber of
                    Inl err \<Rightarrow> (None, marketWinners)
                  | Inr holders \<Rightarrow>
                      (let winnerData = make_winner_data mid outcome pid blockNumber (clock env) holders
                       in (Some winnerData, AList.update mid winnerData marketWinners)))))"

subsection \<open>The exact reading of the fold\<close>

text \<open>
  What the specification describes: amounts and balances are integers, added and
  subtracted exactly. \<open>received\<close> and \<open>sent\<close> are the totals of an address over a list
  of events; \<open>exact_apply_event\<close> is the fold step with exact arithmetic.
\<close>

definition received :: "transfer list \<Rightarrow> address \<Rightarrow> int" where
  "received events a = (\<Sum>ev\<leftarrow>events. if ev_to ev = a then int (ev_value ev) else 0)"

definition sent :: "transfer list \<Rightarrow> address \<Rightarrow> int" where
  "sent events a = (\<Sum>ev\<leftarrow>events. if ev_from ev = a then int (ev_value ev) else 0)"

definition total_amount :: "transfer list \<Rightarrow> int" where
  "total_amount events = (\<Sum>ev\<leftarrow>events. int (ev_value ev))"

text \<open>
  No event takes more from a sender than the sender holds at that moment, as the token
  contract enforces it for the transfers it logs.
\<close>

definition no_overdraft :: "transfer list \<Rightarrow> bool" where
  "no_overdraft events =
     (\<forall>i < length events.
        ev_from (events ! i) \<noteq> ZeroAddress \<longrightarrow>
        int (ev_value (events ! i))
          \<le> received (take i events) (ev_from (events ! i)) - sent (take i events) (ev_from (events ! i)))"

definition exact_debit :: "address \<Rightarrow> int \<Rightarrow> holders \<Rightarrow> holders" where
  "exact_debit a amount holders =
     (let newBalance = get_or_zero holders a - amount
      in if newBalance \<le> 0 then AList.delete a holders
         else AList.update a newBalance holders)"

definition exact_credit :: "address \<Rightarrow> int \<Rightarrow> holders \<Rightarrow> holders" where
  "exact_credit a amount holders = AList.update a (get_or_zero holders a + amount) holders"

definition exact_apply_event :: "transfer \<Rightarrow> holders \<Rightarrow> holders" where
  "exact_apply_event ev holders =
     (let amount = int (ev_value ev);
          holders1 = (if ev_from ev \<noteq> ZeroAddress then exact_debit (ev_from ev) amount holders
                      else holders)
      in if ev_to ev \<noteq> ZeroAddress then exact_credit (ev_to ev) amount holders1
         else holders1)"

definition exact_snapshot :: "transfer list \<Rightarrow> holders" where
  "exact_snapshot events = active_holders (fold exact_apply_event events [])"

subsection \<open>Invariants of the ledger\<close>

text \<open>No entry of the ledger is negative; no entry is zero or negative.\<close>

definition nonneg_ledger :: "holders \<Rightarrow> bool" where
  "nonneg_ledger h = (\<forall>(a, b) \<in> set h. 0 \<le> b)"

definition positive_ledger :: "holders \<Rightarrow> bool" where
  "positive_ledger h = (\<forall>(a, b) \<in> set h. 0 < b)"

text \<open>
  A ledger as a \<open>Map\<close> holds it, with balances that are not negative and add up to at
  most \<open>B\<close>.
\<close>

definition bounded_ledger :: "holders \<Rightarrow> int \<Rightarrow> bool" where
  "bounded_ledger h B = (distinct (map fst h) \<and> nonneg_ledger h \<and> sum_list (map snd h) \<le> B)"

text \<open>
  The ledger follows the totals of a list of events: for every address but the null
  address, the balance it holds (\<open>0\<close> when absent) is what the address received minus
  what it sent.
\<close>

definition tracks_net :: "transfer list \<Rightarrow> holders \<Rightarrow> bool" where
  "tracks_net evs h =
     (distinct (map fst h) \<and> ZeroAddress \<notin> fst ` set h \<and> nonneg_ledger h \<and>
      (\<forall>a. a \<noteq> ZeroAddress \<longrightarrow> get_or_zero h a = received evs a - sent evs a))"

subsection \<open>Example environments\<close>

text \<open>
  A node whose every query times out; a node that has no events for any window; a node
  that answers for the windows below block \<open>10000\<close> and times out from there on; a
  position mapping that knows one position.
\<close>

definition rpc_down :: "nat \<Rightarrow> int \<Rightarrow> int \<Rightarrow> rpc_error + transfer list" where
  "rpc_down pid fromBlock toBlock = Inl (RpcError ''timeout'')"

definition rpc_no_events :: "nat \<Rightarrow> int \<Rightarrow> int \<Rightarrow> rpc_error + transfer list" where
  "rpc_no_events pid fromBlock toBlock = Inr []"

definition rpc_fails_late :: "nat \<Rightarrow> int \<Rightarrow> int \<Rightarrow> rpc_error + transfer list" where
  "rpc_fails_late pid fromBlock toBlock =
     (if fromBlock < 10000
      then Inr [\<lparr>ev_block = 1, ev_id = pid, ev_from = ZeroAddress, ev_to = ''0xA'', ev_value = 50\<rparr>]
      else Inl (RpcError ''timeout''))"

definition position_seven :: "string \<Rightarrow> string \<Rightarrow> nat option" where
  "position_seven mid outcome = Some 7"

section \<open>The request dispatcher of the market tracker\<close>

text \<open>
  \<open>makeRequest\<close> puts a request into \<open>requestQueue\<close> and calls \<open>processQueue\<close>, an
  asynchronous loop of which at most one instance runs (\<open>isProcessingQueue\<close>). The loop
  is suspended at three places: the timer that spaces two requests, \<open>axios.get\<close>, and
  the timer before a retry. The model makes these places the states of the worker and
  lets the environment drive it: a request is enqueued, the clock moves, the pending
  timer fires, the pending HTTP call ends. When a timer fires and what \<open>Date.now()\<close>
  shows then is up to the environment: the worker goes on as soon as its timer has
  fired and does not look at the clock again. The state of a waiting worker keeps the
  time at which its timer is due, which the source does not store, so that runs with
  timers that fire on time can be told from the others.

  A request carries the \<open>resolve\<close> and \<open>reject\<close> functions of the promise its caller
  holds; \<open>rid\<close> stands for that pair. \<open>dispatched\<close> and \<open>settled\<close> record the calls of
  \<open>axios.get\<close> (with the time written into \<open>lastRequestTime\<close>) and the calls of
  \<open>resolve\<close> and \<open>reject\<close>, newest first. The lines that the loop writes to the log
  are left out.
\<close>

record request =
  url :: string
  retries :: int
  rid :: nat

record http_error =
  err_status :: "nat option"
  err_code :: "string option"
  err_message :: string

datatype settlement = Resolved string | Rejected http_error

datatype worker =
    Idle
  | AwaitSpacing request int
  | AwaitResponse request
  | AwaitBackoff request int

record dispatcher =
  requestQueue :: "request list"
  worker :: worker
  lastRequestTime :: int
  now :: int
  dispatched :: "(int \<times> request) list"
  settled :: "(nat \<times> settlement) list"

definition rate_delay :: int where
  "rate_delay = 100"

definition retry_delay :: int where
  "retry_delay = 2000"

text \<open>\<open>error.response?.status === 429 || error.code === 'ECONNRESET'\<close>\<close>

definition is_transient :: "http_error \<Rightarrow> bool" where
  "is_transient err = (err_status err = Some 429 \<or> err_code err = Some ''ECONNRESET'')"

text \<open>The \<open>try\<close> block up to the \<open>await\<close>: note the time, call \<open>axios.get\<close>.\<close>

definition dispatch :: "request \<Rightarrow> dispatcher \<Rightarrow> dispatcher" where
  "dispatch r s =
     s\<lparr>lastRequestTime := now s, dispatched := (now s, r) # dispatched s,
       worker := AwaitResponse r\<rparr>"

text \<open>
  The head of the \<open>while\<close> loop: leave the loop on an empty queue, otherwise shift the
  first request and either wait for the rest of the spacing or dispatch at once.
\<close>

definition loop_head :: "dispatcher \<Rightarrow> dispatcher" where
  "loop_head s =
     (case requestQueue s of
        [] \<Rightarrow> s\<lparr>worker := Idle\<rparr>
      | r # rest \<Rightarrow>
          (let s1 = s\<lparr>requestQueue := rest\<rparr>;
               timeSinceLastRequest = now s1 - lastRequestTime s1
           in if timeSinceLastRequest < rate_delay
              then s1\<lparr>worker := AwaitSpacing r (now s1 + (rate_delay - timeSinceLastRequest))\<rparr>
              else dispatch r s1))"

definition processQueue :: "dispatcher \<Rightarrow> dispatcher" where
  "processQueue s = (if worker s \<noteq> Idle \<or> requestQueue s = [] then s else loop_head s)"

definition makeRequest :: "request \<Rightarrow> dispatcher \<Rightarrow> dispatcher" where
  "makeRequest r s = processQueue (s\<lparr>requestQueue := requestQueue s @ [r]\<rparr>)"

text \<open>What happens when the call of \<open>axios.get\<close> for \<open>r\<close> ends.\<close>

definition on_response :: "request \<Rightarrow> http_error + string \<Rightarrow> dispatcher \<Rightarrow> dispatcher" where
  "on_response r res s =
     (case res of
        Inr data \<Rightarrow> loop_head (s\<lparr>settled := (rid r, Resolved data) # settled s\<rparr>)
      | Inl err \<Rightarrow>
          if 0 < retries r \<and> is_transient err
          then s\<lparr>worker := AwaitBackoff r (now s + retry_delay)\<rparr>
          else loop_head (s\<lparr>settled := (rid r, Rejected err) # settled s\<rparr>))"

text \<open>After the retry timer: \<open>unshift\<close> the request with one retry less, go on looping.\<close>

definition requeue :: "request \<Rightarrow> dispatcher \<Rightarrow> dispatcher" where
  "requeue r s = s\<lparr>requestQueue := r\<lparr>retries := retries r - 1\<rparr> # requestQueue s\<rparr>"

datatype env_event =
    Enqueue request
  | Tick int
  | TimerFires
  | Response "http_error + string"

fun step :: "env_event \<Rightarrow> dispatcher \<Rightarrow> dispatcher" where
  "step (Enqueue r) s = makeRequest r s"
| "step (Tick d) s = s\<lparr>now := now s + d\<rparr>"
| "step TimerFires s =
     (case worker s of
        AwaitSpacing r deadline \<Rightarrow> dispatch r s
      | AwaitBackoff r deadline \<Rightarrow> loop_head (requeue r s)
      | _ \<Rightarrow> s)"
| "step (Response res) s =
     (case worker s of
        AwaitResponse r \<Rightarrow> on_response r res s
      | _ \<Rightarrow> s)"

definition run :: "env_event list \<Rightarrow> dispatcher \<Rightarrow> dispatcher" where
  "run evs s = fold step evs s"

text \<open>The tracker as its constructor leaves it, at time \<open>t0\<close>.\<close>

definition initial :: "nat \<Rightarrow> dispatcher" where
  "initial t0 =
     \<lparr>requestQueue = [], worker = Idle, lastRequestTime = 0, now = int t0,
      dispatched = [], settled = []\<rparr>"

subsection \<open>Observations on a run\<close>

text \<open>
  Consecutive dispatches are at least \<open>rate_delay\<close> apart (the list is newest first).
\<close>

fun spaced :: "(int \<times> request) list \<Rightarrow> bool" where
  "spaced [] = True"
| "spaced [d] = True"
| "spaced (d2 # d1 # ds) = (fst d1 + rate_delay \<le> fst d2 \<and> spaced (d1 # ds))"

text \<open>The request the worker holds, if any; the requests that are not settled yet.\<close>

fun current :: "worker \<Rightarrow> request list" where
  "current Idle = []"
| "current (AwaitSpacing r deadline) = [r]"
| "current (AwaitResponse r) = [r]"
| "current (AwaitBackoff r deadline) = [r]"

definition pending :: "dispatcher \<Rightarrow> nat list" where
  "pending s = map rid (current (worker s) @ requestQueue s)"

fun enqueued :: "env_event list \<Rightarrow> nat list" where
  "enqueued [] = []"
| "enqueued (Enqueue r # evs) = rid r # enqueued evs"
| "enqueued (ev # evs) = enqueued evs"

text \<open>
  A run in which no spacing timer fires before it is due: whenever the timer of a worker
  that waits for the spacing fires, the clock has reached the time for which it was set.
\<close>

definition spacing_timer_due :: "dispatcher \<Rightarrow> bool" where
  "spacing_timer_due s =
     (case worker s of AwaitSpacing r deadline \<Rightarrow> deadline \<le> now s | _ \<Rightarrow> True)"

fun punctual :: "env_event list \<Rightarrow> dispatcher \<Rightarrow> bool" where
  "punctual [] s = True"
| "punctual (ev # evs) s = ((ev = TimerFires \<longrightarrow> spacing_timer_due s) \<and> punctual evs (step ev s))"

text \<open>The invariant behind the spacing.\<close>

definition spacing_inv :: "dispatcher \<Rightarrow> bool" where
  "spacing_inv s =
     (spaced (dispatched s) \<and>
      (dispatched s \<noteq> [] \<longrightarrow> fst (hd (dispatched s)) \<le> lastRequestTime s) \<and>
      (\<forall>r deadline. worker s = AwaitSpacing r deadline
         \<longrightarrow> lastRequestTime s + rate_delay \<le> deadline))"

text \<open>An idle worker has left the loop, which ends on an empty queue only.\<close>

definition idle_inv :: "dispatcher \<Rightarrow> bool" where
  "idle_inv s = (worker s = Idle \<longrightarrow> requestQueue s = [])"

text \<open>Example requests and failures.\<close>

definition req1 :: request where
  "req1 = \<lparr>url = ''https://gamma-api.polymarket.com/events'', retries = 1, rid = 1\<rparr>"

definition req2 :: request where
  "req2 = \<lparr>url = ''https://gamma-api.polymarket.com/markets'', retries = 3, rid = 2\<rparr>"

definition rate_limited :: http_error where
  "rate_limited = \<lparr>err_status = Some 429, err_code = None, err_message = ''Too Many Requests''\<rparr>"

definition timed_out :: http_error where
  "timed_out =
     \<lparr>err_status = None, err_code = Some ''ECONNABORTED'', err_message = ''timeout of 30000ms exceeded''\<rparr>"

text \<open>The requests that are pending or settled, with their multiplicity.\<close>

definition accounted :: "dispatcher \<Rightarrow> nat multiset" where
  "accounted s = mset (pending s) + mset (map fst (settled s))"

section \<open>The streaming channel of the market tracker\<close>

subsection \<open>Reconnecting\<close>

text \<open>
  The delay of a reconnect is \<open>this.reconnectDelay * Math.pow(2, n - 1)\<close>, a product of
  JavaScript numbers. Powers of two leave the range of a double at \<open>2 ^ 1024\<close>, which a
  raised maximum of attempts reaches, so here the numbers carry the values that are not
  finite. \<open>Math.pow(2, k)\<close> is exact up to \<open>k = 1023\<close> and \<open>Infinity\<close> from there on; a
  product is rounded like every result and is infinite when the rounded value leaves
  the range.
\<close>

datatype jsnum = Finite int | PosInfinity | NegInfinity | NaN

definition math_pow2 :: "nat \<Rightarrow> jsnum" where
  "math_pow2 k = (if k < 1024 then Finite (2 ^ k) else PosInfinity)"

definition in_range :: "int \<Rightarrow> jsnum" where
  "in_range x =
     (if 2 ^ 1024 \<le> x then PosInfinity else if x \<le> - (2 ^ 1024) then NegInfinity else Finite x)"

fun js_times :: "int \<Rightarrow> jsnum \<Rightarrow> jsnum" where
  "js_times a (Finite p) = in_range (toNumber (a * p))"
| "js_times a PosInfinity = (if a = 0 then NaN else if 0 < a then PosInfinity else NegInfinity)"
| "js_times a NegInfinity = (if a = 0 then NaN else if 0 < a then NegInfinity else PosInfinity)"
| "js_times a NaN = NaN"

text \<open>
  The fields of the tracker that \<open>scheduleReconnect\<close> reads and writes, the delays it has
  handed to \<open>setTimeout\<close> so far, oldest first, and two counters for what the handlers
  themselves do not store: the timers that have not elapsed yet and the sockets that
  can still raise events. The attempt counter starts at \<open>0\<close> and is only ever incremented
  or reset to \<open>0\<close>; it is a number as well, so \<open>++\<close> and \<open>- 1\<close> round. The maximum and the
  base delay come from the environment (\<open>parseInt(\<dots>) || 10\<close> and \<open>parseInt(\<dots>) || 5000\<close>)
  and can be any integer that a number holds, \<open>0\<close> apart; a setting so long that \<open>parseInt\<close>
  reads it as \<open>Infinity\<close> is left out. What the runtime makes of a delay that is beyond
  its own limit is not part of the model.
\<close>

record channel =
  wsReconnectAttempts :: nat
  maxReconnectAttempts :: int
  reconnectDelay :: int
  timers :: "jsnum list"
  pendingTimers :: nat
  sockets :: nat

definition scheduleReconnect :: "channel \<Rightarrow> channel" where
  "scheduleReconnect s =
     (if maxReconnectAttempts s \<le> int (wsReconnectAttempts s) then s
      else
        (let attempts = nat (num_add (int (wsReconnectAttempts s)) 1);
             delay = js_times (reconnectDelay s) (math_pow2 (nat (num_sub (int attempts) 1)))
         in s\<lparr>wsReconnectAttempts := attempts, timers := timers s @ [delay],
              pendingTimers := pendingTimers s + 1\<rparr>))"







subsection \<open>Fan-out to the registered callbacks\<close>

text \<open>
  \<open>realtimeCallbacks\<close> is a \<open>Set\<close> of functions. A \<open>Set\<close> keeps its entries in the order of
  insertion; \<open>delete\<close> leaves an empty place behind and \<open>add\<close> appends at the end unless the
  value is there, which is what a running \<open>for \<dots> of\<close> over the set walks through: it
  goes from place to place, skips the empty ones and also reaches what was added since
  it started. So the set is a list of places, \<open>None\<close> the empty one, and a callback is a
  number.
\<close>

fun members :: "nat option list \<Rightarrow> nat list" where
  "members [] = []"
| "members (None # places) = members places"
| "members (Some c # places) = c # members places"

text \<open>
  The record keeps, besides the set, the calls made (\<open>delivered\<close>) and the lines written
  by \<open>this.log\<close> in the loop (\<open>logged\<close>), oldest first.
\<close>

record 'd fanout =
  realtimeCallbacks :: "nat option list"
  delivered :: "(nat \<times> 'd) list"
  logged :: "string list"

definition addRealtimeCallback :: "nat \<Rightarrow> 'd fanout \<Rightarrow> 'd fanout" where
  "addRealtimeCallback c s =
     (if Some c \<in> set (realtimeCallbacks s) then s
      else s\<lparr>realtimeCallbacks := realtimeCallbacks s @ [Some c]\<rparr>)"

definition removeRealtimeCallback :: "nat \<Rightarrow> 'd fanout \<Rightarrow> 'd fanout" where
  "removeRealtimeCallback c s =
     s\<lparr>realtimeCallbacks := map (\<lambda>place. if place = Some c then None else place) (realtimeCallbacks s)\<rparr>"

text \<open>
  A callback is opaque. What the loop and the set see of a call is which callbacks it
  registers and removes while it runs, and whether it returns or throws. The value
  thrown reaches \<open>catch (error)\<close>, which logs \<open>error.message\<close>: of an \<open>Error\<close> that is its
  message; of \<open>null\<close> or \<open>undefined\<close> the property cannot be read, and the \<open>catch\<close> block
  throws itself. The same happens for a message that cannot be made a string.
  What a callback does can depend on the calls made before, which \<open>beh c d h\<close> takes as
  \<open>h\<close>, for callback \<open>c\<close> and update \<open>d\<close>.
\<close>

datatype thrown = WithMessage string | NoMessage

datatype set_op = AddCallback nat | RemoveCallback nat

record outcome =
  set_ops :: "set_op list"
  throws :: "thrown option"

type_synonym 'd behaviour = "nat \<Rightarrow> 'd \<Rightarrow> (nat \<times> 'd) list \<Rightarrow> outcome"

fun run_op :: "set_op \<Rightarrow> 'd fanout \<Rightarrow> 'd fanout" where
  "run_op (AddCallback c) s = addRealtimeCallback c s"
| "run_op (RemoveCallback c) s = removeRealtimeCallback c s"

definition call :: "'d behaviour \<Rightarrow> 'd \<Rightarrow> nat \<Rightarrow> 'd fanout \<Rightarrow> 'd fanout" where
  "call beh d c s =
     fold run_op (set_ops (beh c d (delivered s))) (s\<lparr>delivered := delivered s @ [(c, d)]\<rparr>)"

definition raised :: "'d behaviour \<Rightarrow> 'd \<Rightarrow> nat \<Rightarrow> 'd fanout \<Rightarrow> thrown option" where
  "raised beh d c s = throws (beh c d (delivered s))"

definition log_line :: "string \<Rightarrow> 'd fanout \<Rightarrow> 'd fanout" where
  "log_line message s = s\<lparr>logged := logged s @ [message]\<rparr>"

text \<open>
  The loop of \<open>notifyRealtimeUpdate\<close>, at place \<open>i\<close> of the set. It ends with the state
  when the places are used up, and with an error and the state reached when the
  \<open>catch\<close> block throws: then the exception leaves \<open>notifyRealtimeUpdate\<close> and the
  callbacks further on are not called. Callbacks that keep registering new ones keep the
  loop running for ever, which is the value \<open>None\<close>.
\<close>

datatype fanout_error = CatchThrows

partial_function (option) notify_loop ::
  "'d behaviour \<Rightarrow> 'd \<Rightarrow> nat \<Rightarrow> 'd fanout \<Rightarrow> ((fanout_error \<times> 'd fanout) + 'd fanout) option" where
  "notify_loop beh d i s =
     (if length (realtimeCallbacks s) \<le> i then Some (Inr s)
      else
        (case realtimeCallbacks s ! i of
           None \<Rightarrow> notify_loop beh d (i + 1) s
         | Some c \<Rightarrow>
             (case raised beh d c s of
                None \<Rightarrow> notify_loop beh d (i + 1) (call beh d c s)
              | Some (WithMessage m) \<Rightarrow>
                  notify_loop beh d (i + 1)
                    (log_line (''Error in realtime callback: '' @ m) (call beh d c s))
              | Some NoMessage \<Rightarrow> Some (Inl (CatchThrows, call beh d c s)))))"

definition notifyRealtimeUpdate ::
  "'d behaviour \<Rightarrow> 'd \<Rightarrow> 'd fanout \<Rightarrow> ((fanout_error \<times> 'd fanout) + 'd fanout) option" where
  "notifyRealtimeUpdate beh d s = notify_loop beh d 0 s"

text \<open>
  The lines that the loop logs for the callbacks \<open>cs\<close>, called in this order after the
  calls \<open>h\<close>, when none of them touches the set.
\<close>

fun error_lines :: "'d behaviour \<Rightarrow> 'd \<Rightarrow> (nat \<times> 'd) list \<Rightarrow> nat list \<Rightarrow> string list" where
  "error_lines beh d h [] = []"
| "error_lines beh d h (c # cs) =
     (case throws (beh c d h) of
        Some (WithMessage m) \<Rightarrow> [''Error in realtime callback: '' @ m]
      | _ \<Rightarrow> []) @ error_lines beh d (h @ [(c, d)]) cs"

text \<open>
  Behaviours for the examples: callback \<open>1\<close> throws an \<open>Error\<close>; callback \<open>1\<close> throws
  \<open>null\<close>; callback \<open>1\<close> registers callback \<open>3\<close> and removes callback \<open>2\<close>. The other
  callbacks return.
\<close>

definition first_throws :: "string behaviour" where
  "first_throws c d h =
     \<lparr>set_ops = [], throws = (if c = 1 then Some (WithMessage ''boom'') else None)\<rparr>"

definition first_throws_null :: "string behaviour" where
  "first_throws_null c d h = \<lparr>set_ops = [], throws = (if c = 1 then Some NoMessage else None)\<rparr>"

definition first_changes_set :: "string behaviour" where
  "first_changes_set c d h =
     \<lparr>set_ops = (if c = 1 then [AddCallback 3, RemoveCallback 2] else []), throws = None\<rparr>"

text \<open>Two registered callbacks, nothing delivered yet.\<close>

definition two_callbacks :: "string fanout" where
  "two_callbacks = \<lparr>realtimeCallbacks = [Some 1, Some 2], delivered = [], logged = []\<rparr>"

subsection \<open>Market resolution\<close>

text \<open>
  The part of the shared state that \<open>handleMarketResolution\<close> works on: the two maps of
  \<open>this.events\<close>, from event id to event data, each a \<open>Map\<close> and so an association
  list in insertion order. A market and an event have many more fields than the handler
  touches; they are the extension part of the records, of which the handler knows
  nothing.
\<close>

record market =
  market_id :: string
  question :: string
  status :: string
  resolvedAt :: "string option"

record 'm event_data =
  title :: string
  markets :: "'m market_scheme list"
  activeMarketsCount :: int
  resolvedMarketsCount :: int

record ('m, 'e) events_store =
  active :: "(string \<times> ('m, 'e) event_data_scheme) list"
  resolved :: "(string \<times> ('m, 'e) event_data_scheme) list"
  lastUpdate :: "string option"

text \<open>The object handed to \<open>notifyRealtimeUpdate\<close>.\<close>

record 'm resolution_notice =
  n_type :: string
  n_eventId :: string
  n_marketId :: string
  n_market :: "'m market_scheme"
  n_title :: string
  n_activeMarketsCount :: int
  n_resolvedMarketsCount :: int
  n_timestamp :: string

text \<open>\<open>Array.prototype.findIndex\<close>; \<open>None\<close> is the \<open>-1\<close> of the source.\<close>

fun findIndex :: "('a \<Rightarrow> bool) \<Rightarrow> 'a list \<Rightarrow> nat option" where
  "findIndex P [] = None"
| "findIndex P (x # xs) = (if P x then Some 0 else map_option Suc (findIndex P xs))"

text \<open>
  The loop over the entries of \<open>events.active\<close>, with its \<open>break\<close> after the first event
  that has the market. \<open>t1\<close> and \<open>t2\<close> are the two readings of the clock, for
  \<open>resolvedAt\<close> and for the notice. The function returns the entries after the mutation
  and the notices passed to \<open>notifyRealtimeUpdate\<close>.
\<close>

fun resolve_in_active ::
  "string \<Rightarrow> string \<Rightarrow> string \<Rightarrow> (string \<times> ('m, 'e) event_data_scheme) list
     \<Rightarrow> (string \<times> ('m, 'e) event_data_scheme) list \<times> 'm resolution_notice list" where
  "resolve_in_active mid t1 t2 [] = ([], [])"
| "resolve_in_active mid t1 t2 ((eventId, eventData) # rest) =
     (case findIndex (\<lambda>m. market_id m = mid) (markets eventData) of
        Some marketIndex \<Rightarrow>
          (let market = (markets eventData ! marketIndex)\<lparr>status := ''resolved'', resolvedAt := Some t1\<rparr>;
               eventData' = eventData
                 \<lparr>markets := (markets eventData)[marketIndex := market],
                  resolvedMarketsCount := resolvedMarketsCount eventData + 1,
                  activeMarketsCount := activeMarketsCount eventData - 1\<rparr>
           in ((eventId, eventData') # rest,
               [\<lparr>n_type = ''market_resolved'', n_eventId = eventId, n_marketId = mid,
                 n_market = market, n_title = title eventData',
                 n_activeMarketsCount = activeMarketsCount eventData',
                 n_resolvedMarketsCount = resolvedMarketsCount eventData',
                 n_timestamp = t2\<rparr>]))
      | None \<Rightarrow>
          (let (rest', notices) = resolve_in_active mid t1 t2 rest
           in ((eventId, eventData) # rest', notices)))"

definition handleMarketResolution ::
  "string \<Rightarrow> string \<Rightarrow> string \<Rightarrow> ('m, 'e, 's) events_store_scheme
     \<Rightarrow> ('m, 'e, 's) events_store_scheme \<times> 'm resolution_notice list" where
  "handleMarketResolution mid t1 t2 s =
     (let (active', notices) = resolve_in_active mid t1 t2 (active s)
      in (s\<lparr>active := active'\<rparr>, notices))"

text \<open>What may differ between a market, or an event, before and after the handler.\<close>

definition same_but_status :: "'m market_scheme \<Rightarrow> 'm market_scheme \<Rightarrow> bool" where
  "same_but_status m m' = (m'\<lparr>status := status m, resolvedAt := resolvedAt m\<rparr> = m)"

definition event_frame ::
  "string \<Rightarrow> ('m, 'e) event_data_scheme \<Rightarrow> ('m, 'e) event_data_scheme \<Rightarrow> bool" where
  "event_frame mid ev ev' =
     (ev'\<lparr>markets := markets ev, activeMarketsCount := activeMarketsCount ev,
          resolvedMarketsCount := resolvedMarketsCount ev\<rparr> = ev \<and>
      length (markets ev') = length (markets ev) \<and>
      (\<forall>j < length (markets ev).
         same_but_status (markets ev ! j) (markets ev' ! j) \<and>
         (market_id (markets ev ! j) \<noteq> mid \<longrightarrow> markets ev' ! j = markets ev ! j)) \<and>
      activeMarketsCount ev' + resolvedMarketsCount ev'
        = activeMarketsCount ev + resolvedMarketsCount ev)"

definition has_market :: "string \<Rightarrow> string \<times> ('m, 'e) event_data_scheme \<Rightarrow> bool" where
  "has_market mid entry = list_ex (\<lambda>m. market_id m = mid) (markets (snd entry))"

text \<open>An example state: two active events, the second with the market \<open>m2\<close>.\<close>

definition example_store :: "(unit, unit) events_store" where
  "example_store =
     \<lparr>active =
        [(''e1'', \<lparr>title = ''Election'',
                  markets = [\<lparr>market_id = ''m1'', question = ''A?'', status = ''active'',
                              resolvedAt = None\<rparr>],
                  activeMarketsCount = 1, resolvedMarketsCount = 0\<rparr>),
         (''e2'', \<lparr>title = ''Final'',
                  markets = [\<lparr>market_id = ''m3'', question = ''B?'', status = ''active'',
                              resolvedAt = None\<rparr>,
                             \<lparr>market_id = ''m2'', question = ''C?'', status = ''active'',
                              resolvedAt = None\<rparr>],
                  activeMarketsCount = 2, resolvedMarketsCount = 0\<rparr>)],
      resolved = [],
      lastUpdate = None\<rparr>"

text \<open>The example state after the market \<open>m2\<close> has been resolved at time \<open>T1\<close>.\<close>

definition example_store_resolved :: "(unit, unit) events_store" where
  "example_store_resolved =
     \<lparr>active =
        [(''e1'', \<lparr>title = ''Election'',
                  markets = [\<lparr>market_id = ''m1'', question = ''A?'', status = ''active'',
                              resolvedAt = None\<rparr>],
                  activeMarketsCount = 1, resolvedMarketsCount = 0\<rparr>),
         (''e2'', \<lparr>title = ''Final'',
                  markets = [\<lparr>market_id = ''m3'', question = ''B?'', status = ''active'',
                              resolvedAt = None\<rparr>,
                             \<lparr>market_id = ''m2'', question = ''C?'', status = ''resolved'',
                              resolvedAt = Some ''T1''\<rparr>],
                  activeMarketsCount = 1, resolvedMarketsCount = 1\<rparr>)],
      resolved = [],
      lastUpdate = None\<rparr>"

section \<open>Properties of the number model\<close>

text \<open>
  Rounding keeps every integer of magnitude up to \<open>2 ^ 53\<close> and never changes a sign.
\<close>

lemma sig_shift_small: "m < 2 ^ 53 \<Longrightarrow> sig_shift m = 0"
  by (subst sig_shift.simps) simp

lemma sig_shift_div_pos: "0 < m \<Longrightarrow> 0 < m div 2 ^ sig_shift m"
proof (induction m rule: sig_shift.induct)
  case (1 m)
  show ?case
  proof (cases "m < 2 ^ 53")
    case True
    with "1.prems" show ?thesis by (simp add: sig_shift_small)
  next
    case False
    then have pos: "0 < m div 2" by simp
    have eq: "sig_shift m = Suc (sig_shift (m div 2))"
      using False by (subst sig_shift.simps) simp
    have "m div 2 ^ Suc (sig_shift (m div 2)) = (m div 2) div 2 ^ sig_shift (m div 2)"
      by (simp add: div_mult2_eq)
    with "1.IH" [OF False pos] eq show ?thesis by simp
  qed
qed

lemma toNumber_small: "\<bar>x\<bar> < 2 ^ 53 \<Longrightarrow> toNumber x = x"
proof -
  assume a: "\<bar>x\<bar> < 2 ^ 53"
  then have "nat \<bar>x\<bar> < 2 ^ 53" by simp
  then have "sig_shift (nat \<bar>x\<bar>) = 0" by (rule sig_shift_small)
  then have "toNumber x = sgn x * \<bar>x\<bar>" by (simp add: toNumber_def Let_def)
  then show ?thesis by (simp add: mult_sgn_abs)
qed

lemma sig_shift_two53: "sig_shift 9007199254740992 = 1"
  by (subst sig_shift.simps, simp, subst sig_shift.simps, simp)

lemma toNumber_two53:
  "toNumber 9007199254740992 = 9007199254740992"
  "toNumber (- 9007199254740992) = - 9007199254740992"
  by (simp_all add: toNumber_def Let_def sig_shift_two53)

lemma toNumber_exact: "\<bar>x\<bar> \<le> 2 ^ 53 \<Longrightarrow> toNumber x = x"
proof -
  assume "\<bar>x\<bar> \<le> 2 ^ 53"
  then consider "\<bar>x\<bar> < 2 ^ 53" | "x = 2 ^ 53" | "x = - (2 ^ 53)" by linarith
  then show ?thesis
    by cases (simp_all add: toNumber_small toNumber_two53)
qed

lemma toNumber_sgn: "sgn (toNumber x) = sgn x"
proof (cases "x = 0")
  case True
  then show ?thesis by (simp add: toNumber_def)
next
  case False
  then have "0 < nat \<bar>x\<bar>" by simp
  then have q: "0 < nat \<bar>x\<bar> div 2 ^ sig_shift (nat \<bar>x\<bar>)" by (rule sig_shift_div_pos)
  define m where "m = nat \<bar>x\<bar>"
  define e where "e = sig_shift m"
  define q' where "q' = (if 2 ^ e < 2 * (m mod 2 ^ e) \<or> (2 * (m mod 2 ^ e) = 2 ^ e \<and> odd (m div 2 ^ e))
     then m div 2 ^ e + 1 else m div 2 ^ e)"
  have "0 < q'" using q by (simp add: q'_def m_def e_def)
  then have pos: "0 < int (q' * 2 ^ e)" by simp
  have "toNumber x = sgn x * int (q' * 2 ^ e)"
    by (simp add: toNumber_def Let_def q'_def m_def e_def)
  then have "sgn (toNumber x) = sgn (sgn x) * sgn (int (q' * 2 ^ e))"
    by (simp only: sgn_mult)
  also have "\<dots> = sgn x" using pos by (simp only: sgn_sgn sgn_pos mult_1_right)
  finally show ?thesis .
qed

lemma toNumber_pos_iff: "0 < toNumber x \<longleftrightarrow> 0 < x"
  using toNumber_sgn [of x] by (metis sgn_greater)

lemma toNumber_nonpos_iff: "toNumber x \<le> 0 \<longleftrightarrow> x \<le> 0"
  using toNumber_pos_iff [of x] by linarith

lemma toNumber_nonneg_iff: "0 \<le> toNumber x \<longleftrightarrow> 0 \<le> x"
  using toNumber_sgn [of x] by (metis sgn_less not_le)

lemma parseInt_nonneg: "0 \<le> parseInt v"
  by (simp add: parseInt_def toNumber_nonneg_iff)

lemma parseInt_pos: "0 < v \<Longrightarrow> 0 < parseInt v"
  by (simp add: parseInt_def toNumber_pos_iff)

lemma parseInt_exact: "int v \<le> 2 ^ 53 \<Longrightarrow> parseInt v = int v"
  by (simp add: parseInt_def toNumber_exact)

section \<open>Properties of the balance reconstruction\<close>

subsection \<open>Signs of the entries\<close>

lemma get_or_zero_nonneg: "nonneg_ledger h \<Longrightarrow> 0 \<le> get_or_zero h a"
  by (auto simp: nonneg_ledger_def get_or_zero_def split: option.splits dest: map_of_SomeD)

lemma set_delete_subset: "set (AList.delete k h) \<subseteq> set h"
  by (auto simp: AList.delete_eq)

lemma set_update_subset: "set (AList.update k v h) \<subseteq> insert (k, v) (set h)"
  by (induction h) auto

lemma nonneg_delete: "nonneg_ledger h \<Longrightarrow> nonneg_ledger (AList.delete k h)"
  using set_delete_subset [of k h] by (auto simp: nonneg_ledger_def)

lemma nonneg_update: "nonneg_ledger h \<Longrightarrow> 0 \<le> v \<Longrightarrow> nonneg_ledger (AList.update k v h)"
  using set_update_subset [of k v h] by (auto simp: nonneg_ledger_def)

lemma positive_delete: "positive_ledger h \<Longrightarrow> positive_ledger (AList.delete k h)"
  using set_delete_subset [of k h] by (auto simp: positive_ledger_def)

lemma positive_update: "positive_ledger h \<Longrightarrow> 0 < v \<Longrightarrow> positive_ledger (AList.update k v h)"
  using set_update_subset [of k v h] by (auto simp: positive_ledger_def)

lemma positive_nonneg: "positive_ledger h \<Longrightarrow> nonneg_ledger h"
  by (auto simp: positive_ledger_def nonneg_ledger_def)

lemma nonneg_debit: "nonneg_ledger h \<Longrightarrow> nonneg_ledger (debit a amt h)"
  by (simp add: debit_def Let_def nonneg_delete nonneg_update)

lemma positive_debit: "positive_ledger h \<Longrightarrow> positive_ledger (debit a amt h)"
  by (simp add: debit_def Let_def positive_delete positive_update)

lemma nonneg_credit: "nonneg_ledger h \<Longrightarrow> 0 \<le> amt \<Longrightarrow> nonneg_ledger (credit a amt h)"
  by (simp add: credit_def Let_def nonneg_update num_add_def toNumber_nonneg_iff get_or_zero_nonneg)

lemma positive_credit: "positive_ledger h \<Longrightarrow> 0 < amt \<Longrightarrow> positive_ledger (credit a amt h)"
proof -
  assume p: "positive_ledger h" and a: "0 < amt"
  have "0 \<le> get_or_zero h a" using p by (simp add: get_or_zero_nonneg positive_nonneg)
  with a have "0 < num_add (get_or_zero h a) amt"
    by (simp add: num_add_def toNumber_pos_iff)
  with p show ?thesis by (simp add: credit_def Let_def positive_update)
qed

lemma nonneg_apply_event: "nonneg_ledger h \<Longrightarrow> nonneg_ledger (apply_event ev h)"
  by (simp add: apply_event_def Let_def nonneg_debit nonneg_credit parseInt_nonneg)

lemma positive_apply_event:
  "positive_ledger h \<Longrightarrow> 0 < ev_value ev \<Longrightarrow> positive_ledger (apply_event ev h)"
  by (simp add: apply_event_def Let_def positive_debit positive_credit parseInt_pos)

lemma nonneg_process_events: "nonneg_ledger h \<Longrightarrow> nonneg_ledger (process_events evs h)"
  unfolding process_events_def
  by (induction evs arbitrary: h) (simp_all add: nonneg_apply_event)

lemma positive_process_events:
  "positive_ledger h \<Longrightarrow> \<forall>ev \<in> set evs. 0 < ev_value ev \<Longrightarrow> positive_ledger (process_events evs h)"
  unfolding process_events_def
  by (induction evs arbitrary: h) (simp_all add: positive_apply_event)

lemma debit_entry_positive: "map_of (debit a amt h) a = Some b \<Longrightarrow> 0 < b"
  by (auto simp: debit_def Let_def update_conv' delete_conv' split: if_splits)

lemma parseInt_numeral [simp]: "int v < 2 ^ 53 \<Longrightarrow> parseInt v = int v"
  by (simp add: parseInt_exact)

text \<open>
  C5 (as amended). At every intermediate point of the fold, that is after any number
  of events applied to a ledger without negative entries, the ledger has no negative
  entry; when every event moves a positive amount and the ledger had no entry \<open>\<le> 0\<close>,
  it has no entry \<open>\<le> 0\<close>; and whatever the ledger, the entry that a debit leaves for the
  sender is positive: a balance that reaches \<open>\<le> 0\<close> is removed.
\<close>

theorem ledger_signs_mid_fold:
  "(nonneg_ledger h \<longrightarrow> nonneg_ledger (process_events (take n events) h)) \<and>
   (positive_ledger h \<and> (\<forall>ev \<in> set events. 0 < ev_value ev)
      \<longrightarrow> positive_ledger (process_events (take n events) h)) \<and>
   (\<forall>b. map_of (debit a amount h) a = Some b \<longrightarrow> 0 < b)"
proof (intro conjI impI allI)
  assume "nonneg_ledger h"
  then show "nonneg_ledger (process_events (take n events) h)"
    by (rule nonneg_process_events)
next
  assume a: "positive_ledger h \<and> (\<forall>ev \<in> set events. 0 < ev_value ev)"
  then have "\<forall>ev \<in> set (take n events). 0 < ev_value ev"
    by (meson in_set_takeD)
  with a show "positive_ledger (process_events (take n events) h)"
    by (simp add: positive_process_events)
next
  fix b
  assume "map_of (debit a amount h) a = Some b"
  then show "0 < b" by (rule debit_entry_positive)
qed

theorem ledger_signs_mid_fold_witness:
  "positive_ledger [] \<and>
   list_all (\<lambda>ev. 0 < ev_value ev)
     [\<lparr>ev_block = 1, ev_id = 7, ev_from = ZeroAddress, ev_to = ''0xA'', ev_value = 50\<rparr>,
      \<lparr>ev_block = 2, ev_id = 7, ev_from = ''0xA'', ev_to = ''0xB'', ev_value = 20\<rparr>,
      \<lparr>ev_block = 3, ev_id = 7, ev_from = ''0xA'', ev_to = ''0xB'', ev_value = 30\<rparr>] \<and>
   process_events (take 2
     [\<lparr>ev_block = 1, ev_id = 7, ev_from = ZeroAddress, ev_to = ''0xA'', ev_value = 50\<rparr>,
      \<lparr>ev_block = 2, ev_id = 7, ev_from = ''0xA'', ev_to = ''0xB'', ev_value = 20\<rparr>,
      \<lparr>ev_block = 3, ev_id = 7, ev_from = ''0xA'', ev_to = ''0xB'', ev_value = 30\<rparr>]) []
     = [(''0xA'', 30), (''0xB'', 20)] \<and>
   positive_ledger (process_events (take 2
     [\<lparr>ev_block = 1, ev_id = 7, ev_from = ZeroAddress, ev_to = ''0xA'', ev_value = 50\<rparr>,
      \<lparr>ev_block = 2, ev_id = 7, ev_from = ''0xA'', ev_to = ''0xB'', ev_value = 20\<rparr>,
      \<lparr>ev_block = 3, ev_id = 7, ev_from = ''0xA'', ev_to = ''0xB'', ev_value = 30\<rparr>]) []) \<and>
   map_of (debit ''0xA'' 20 [(''0xA'', 50)]) ''0xA'' = Some 30 \<and> (0::int) < 30"
  using ledger_signs_mid_fold [of "[]" 2
     "[\<lparr>ev_block = 1, ev_id = 7, ev_from = ZeroAddress, ev_to = ''0xA'', ev_value = 50\<rparr>,
      \<lparr>ev_block = 2, ev_id = 7, ev_from = ''0xA'', ev_to = ''0xB'', ev_value = 20\<rparr>,
      \<lparr>ev_block = 3, ev_id = 7, ev_from = ''0xA'', ev_to = ''0xB'', ev_value = 30\<rparr>]"
     "''0xA''" 20]
  by (simp add: positive_ledger_def process_events_def apply_event_def debit_def credit_def
      get_or_zero_def num_add_def num_sub_def toNumber_small ZeroAddress_def numeral_2_eq_2)

theorem zero_entry_mid_fold_counterexample:
  "process_events [\<lparr>ev_block = 1, ev_id = 7, ev_from = ZeroAddress, ev_to = ''0xA'', ev_value = 0\<rparr>] []
     = [(''0xA'', 0)] \<and> \<not> positive_ledger [(''0xA'', 0)]"
  by (simp add: positive_ledger_def process_events_def apply_event_def debit_def credit_def
      get_or_zero_def num_add_def num_sub_def toNumber_small ZeroAddress_def)

subsection \<open>Exactness below \<open>2 ^ 53\<close>\<close>

lemma sum_snd_update:
  "distinct (map fst h) \<Longrightarrow>
   sum_list (map snd (AList.update k v h)) = sum_list (map snd h) - get_or_zero h k + v"
proof (induction h)
  case Nil
  then show ?case by (simp add: get_or_zero_def)
next
  case (Cons p h)
  obtain k' v' where p: "p = (k', v')" by (cases p)
  show ?case
  proof (cases "k' = k")
    case True
    with Cons.prems p show ?thesis by (simp add: get_or_zero_def)
  next
    case False
    with Cons p show ?thesis by (simp add: get_or_zero_def)
  qed
qed

lemma sum_snd_delete:
  "distinct (map fst h) \<Longrightarrow>
   sum_list (map snd (AList.delete k h)) = sum_list (map snd h) - get_or_zero h k"
proof (induction h)
  case Nil
  then show ?case by (simp add: get_or_zero_def)
next
  case (Cons p h)
  obtain k' v' where p: "p = (k', v')" by (cases p)
  show ?case
  proof (cases "k' = k")
    case True
    with Cons.prems p have "k \<notin> fst ` set h" by auto
    then have "AList.delete k h = h" by (simp add: delete_id)
    with True p show ?thesis by (simp add: get_or_zero_def)
  next
    case False
    with Cons p show ?thesis by (simp add: get_or_zero_def)
  qed
qed

lemma nonneg_sum: "nonneg_ledger h \<Longrightarrow> 0 \<le> sum_list (map snd h)"
  by (induction h) (auto simp: nonneg_ledger_def)

lemma get_or_zero_le_sum: "nonneg_ledger h \<Longrightarrow> get_or_zero h a \<le> sum_list (map snd h)"
proof (induction h)
  case Nil
  then show ?case by (simp add: get_or_zero_def)
next
  case (Cons p h)
  obtain k' v' where p: "p = (k', v')" by (cases p)
  from Cons.prems p have v: "0 \<le> v'" and h: "nonneg_ledger h"
    by (auto simp: nonneg_ledger_def)
  from h have s: "0 \<le> sum_list (map snd h)" by (rule nonneg_sum)
  show ?case
  proof (cases "k' = a")
    case True
    with p s show ?thesis by (simp add: get_or_zero_def)
  next
    case False
    with Cons.IH [OF h] p v show ?thesis by (simp add: get_or_zero_def)
  qed
qed

lemma bounded_get: "bounded_ledger h B \<Longrightarrow> 0 \<le> get_or_zero h a \<and> get_or_zero h a \<le> B"
  using get_or_zero_nonneg [of h a] get_or_zero_le_sum [of h a]
  by (auto simp: bounded_ledger_def)

lemma bounded_mono: "bounded_ledger h B \<Longrightarrow> B \<le> B' \<Longrightarrow> bounded_ledger h B'"
  by (auto simp: bounded_ledger_def)

lemma debit_exact:
  assumes "bounded_ledger h B" "0 \<le> amt" "amt \<le> 2 ^ 53" "B \<le> 2 ^ 53"
  shows "debit a amt h = exact_debit a amt h"
proof -
  from bounded_get [OF assms(1), of a] assms
  have "\<bar>get_or_zero h a - amt\<bar> \<le> 2 ^ 53" by linarith
  then have "num_sub (get_or_zero h a) amt = get_or_zero h a - amt"
    by (simp add: num_sub_def toNumber_exact)
  then show ?thesis by (simp add: debit_def exact_debit_def Let_def)
qed

lemma bounded_exact_debit:
  assumes "bounded_ledger h B" "0 \<le> amt"
  shows "bounded_ledger (exact_debit a amt h) B"
proof -
  from assms(1) have d: "distinct (map fst h)" and n: "nonneg_ledger h"
    and s: "sum_list (map snd h) \<le> B"
    by (auto simp: bounded_ledger_def)
  have g: "0 \<le> get_or_zero h a" using n by (rule get_or_zero_nonneg)
  show ?thesis
  proof (cases "get_or_zero h a - amt \<le> 0")
    case True
    then have "exact_debit a amt h = AList.delete a h"
      by (simp add: exact_debit_def Let_def)
    with d n s g show ?thesis
      by (simp add: bounded_ledger_def distinct_delete nonneg_delete sum_snd_delete)
  next
    case False
    then have "exact_debit a amt h = AList.update a (get_or_zero h a - amt) h"
      by (simp add: exact_debit_def Let_def)
    with d n s g False assms(2) show ?thesis
      by (simp add: bounded_ledger_def distinct_update nonneg_update sum_snd_update)
  qed
qed

lemma credit_exact:
  assumes "bounded_ledger h B" "0 \<le> amt" "B + amt \<le> 2 ^ 53"
  shows "credit a amt h = exact_credit a amt h"
proof -
  from bounded_get [OF assms(1), of a] assms
  have "\<bar>get_or_zero h a + amt\<bar> \<le> 2 ^ 53" by linarith
  then have "num_add (get_or_zero h a) amt = get_or_zero h a + amt"
    by (simp add: num_add_def toNumber_exact)
  then show ?thesis by (simp add: credit_def exact_credit_def Let_def)
qed

lemma bounded_exact_credit:
  assumes "bounded_ledger h B" "0 \<le> amt"
  shows "bounded_ledger (exact_credit a amt h) (B + amt)"
proof -
  from assms(1) have d: "distinct (map fst h)" and n: "nonneg_ledger h"
    and s: "sum_list (map snd h) \<le> B"
    by (auto simp: bounded_ledger_def)
  have g: "0 \<le> get_or_zero h a" using n by (rule get_or_zero_nonneg)
  with d n s assms(2) show ?thesis
    by (simp add: exact_credit_def bounded_ledger_def distinct_update nonneg_update sum_snd_update)
qed

lemma apply_event_exact:
  assumes "bounded_ledger h B" "B + int (ev_value ev) \<le> 2 ^ 53"
  shows "apply_event ev h = exact_apply_event ev h"
    and "bounded_ledger (exact_apply_event ev h) (B + int (ev_value ev))"
proof -
  let ?amt = "int (ev_value ev)"
  from assms(1) have "0 \<le> B"
    using nonneg_sum [of h] by (auto simp: bounded_ledger_def)
  with assms(2) have amt: "?amt \<le> 2 ^ 53" and B: "B \<le> 2 ^ 53" by linarith+
  then have p: "parseInt (ev_value ev) = ?amt" by (simp add: parseInt_exact)
  let ?h1 = "if ev_from ev \<noteq> ZeroAddress then exact_debit (ev_from ev) ?amt h else h"
  have d: "(if ev_from ev \<noteq> ZeroAddress then debit (ev_from ev) ?amt h else h) = ?h1"
    using debit_exact [OF assms(1) _ amt B] by simp
  have b1: "bounded_ledger ?h1 B"
    using bounded_exact_debit [OF assms(1)] assms(1) by simp
  have c: "credit (ev_to ev) ?amt ?h1 = exact_credit (ev_to ev) ?amt ?h1"
    using credit_exact [OF b1 _ assms(2)] by simp
  show "apply_event ev h = exact_apply_event ev h"
    unfolding apply_event_def exact_apply_event_def Let_def p d using c by simp
  have "bounded_ledger (exact_credit (ev_to ev) ?amt ?h1) (B + ?amt)"
    using bounded_exact_credit [OF b1] by simp
  moreover have "bounded_ledger ?h1 (B + ?amt)"
    using b1 by (rule bounded_mono) simp
  ultimately show "bounded_ledger (exact_apply_event ev h) (B + ?amt)"
    unfolding exact_apply_event_def Let_def by simp
qed

lemma total_amount_Cons [simp]:
  "total_amount (ev # evs) = int (ev_value ev) + total_amount evs"
  by (simp add: total_amount_def)

lemma total_amount_Nil [simp]: "total_amount [] = 0"
  by (simp add: total_amount_def)

lemma total_amount_nonneg: "0 \<le> total_amount evs"
  by (induction evs) simp_all

lemma process_events_exact:
  "bounded_ledger h B \<Longrightarrow> B + total_amount evs \<le> 2 ^ 53 \<Longrightarrow>
   process_events evs h = fold exact_apply_event evs h \<and>
   bounded_ledger (fold exact_apply_event evs h) (B + total_amount evs)"
proof (induction evs arbitrary: h B)
  case Nil
  then show ?case by (simp add: process_events_def)
next
  case (Cons ev evs)
  have t: "0 \<le> total_amount evs" by (rule total_amount_nonneg)
  with Cons.prems have le: "B + int (ev_value ev) \<le> 2 ^ 53" by simp
  note step = apply_event_exact [OF Cons.prems(1) le]
  from Cons.prems have "B + int (ev_value ev) + total_amount evs \<le> 2 ^ 53" by simp
  from Cons.IH [OF step(2) this] step(1) show ?case
    by (simp add: process_events_def add.assoc)
qed

lemma bounded_empty: "bounded_ledger [] 0"
  by (simp add: bounded_ledger_def nonneg_ledger_def)

lemma foldl_num_add_exact:
  "0 \<le> acc \<Longrightarrow> \<forall>x \<in> set xs. 0 \<le> x \<Longrightarrow> acc + sum_list xs \<le> 2 ^ 53 \<Longrightarrow>
   foldl num_add acc xs = acc + sum_list xs"
proof (induction xs arbitrary: acc)
  case Nil
  then show ?case by simp
next
  case (Cons x xs)
  from Cons.prems have x: "0 \<le> x" and s: "0 \<le> sum_list xs"
    by (auto intro: sum_list_nonneg)
  with Cons.prems have "\<bar>acc + x\<bar> \<le> 2 ^ 53" by simp
  then have e: "num_add acc x = acc + x" by (simp add: num_add_def toNumber_exact)
  from Cons.prems x have "foldl num_add (acc + x) xs = acc + x + sum_list xs"
    by (intro Cons.IH) (simp_all add: add.assoc)
  with e show ?case by simp
qed

lemma sum_balances_exact:
  "bounded_ledger h B \<Longrightarrow> B \<le> 2 ^ 53 \<Longrightarrow> sum_balances h = sum_list (map snd h)"
proof -
  assume b: "bounded_ledger h B" and B: "B \<le> 2 ^ 53"
  from b have "\<forall>x \<in> set (map snd h). 0 \<le> x"
    by (auto simp: bounded_ledger_def nonneg_ledger_def)
  moreover from b B have "0 + sum_list (map snd h) \<le> 2 ^ 53"
    by (simp add: bounded_ledger_def)
  ultimately have "foldl num_add 0 (map snd h) = 0 + sum_list (map snd h)"
    by (intro foldl_num_add_exact) simp_all
  then show ?thesis by (simp add: sum_balances_def)
qed

lemma bounded_active_holders:
  "bounded_ledger h B \<Longrightarrow> bounded_ledger (active_holders h) B"
proof -
  assume b: "bounded_ledger h B"
  then have n: "nonneg_ledger h" by (simp add: bounded_ledger_def)
  have "sum_list (map snd (filter P h)) \<le> sum_list (map snd h)" for P
    using n by (induction h) (auto simp: nonneg_ledger_def)
  from this [of "\<lambda>(address, balance). 0 < balance"] b
  have "sum_list (map snd (active_holders h)) \<le> B"
    by (simp add: bounded_ledger_def active_holders_def)
  moreover from b have "distinct (map fst (active_holders h))"
    by (simp add: bounded_ledger_def active_holders_def distinct_map_filter)
  moreover from n have "nonneg_ledger (active_holders h)"
    by (auto simp: active_holders_def nonneg_ledger_def)
  ultimately show ?thesis by (simp add: bounded_ledger_def)
qed

subsection \<open>The loop over the windows of a sequence in chain order\<close>

lemma filter_window_split:
  assumes "sorted (map f xs)" "(b::int) < c" "a \<le> b + 1"
  shows "filter (\<lambda>x. P x \<and> a \<le> f x \<and> f x \<le> b) xs @ filter (\<lambda>x. P x \<and> b + 1 \<le> f x \<and> f x \<le> c) xs
         = filter (\<lambda>x. P x \<and> a \<le> f x \<and> f x \<le> c) xs"
  using assms
proof (induction xs)
  case Nil
  then show ?case by simp
next
  case (Cons x xs)
  from Cons.prems have sorted: "sorted (map f xs)" and le: "\<forall>y \<in> set xs. f x \<le> f y"
    by auto
  show ?case
  proof (cases "f x \<le> b")
    case True
    with Cons.IH [OF sorted Cons.prems(2,3)] Cons.prems(2,3) show ?thesis by auto
  next
    case False
    with le have "\<forall>y \<in> set xs. \<not> f y \<le> b" by auto
    then have e: "filter (\<lambda>x. P x \<and> a \<le> f x \<and> f x \<le> b) xs = []"
      by (auto simp: filter_empty_conv)
    from Cons.IH [OF sorted Cons.prems(2,3)] e False Cons.prems(3) show ?thesis by auto
  qed
qed

lemma events_between_split:
  assumes "chain_ordered events" "b < c" "a \<le> b + 1"
  shows "events_between events a b @ events_between events (b + 1) c = events_between events a c"
  using filter_window_split [of ev_block events b c a "\<lambda>ev. True"] assms
  by (simp add: events_between_def chain_ordered_def)

lemma events_between_empty: "b < a \<Longrightarrow> events_between events a b = []"
  by (auto simp: events_between_def filter_empty_conv)

lemma fold_over_windows:
  assumes "chain_ordered events" "0 < cs"
  shows "fold (\<lambda>w. process_events (events_between events (fst w) (snd w))) (windows cs start bn) h
         = process_events (events_between events start bn) h"
  using assms
proof (induction cs start bn arbitrary: h rule: windows.induct)
  case (1 cs start bn)
  let ?step = "\<lambda>w. process_events (events_between events (fst w) (snd w))"
  show ?case
  proof (cases "start \<le> bn")
    case False
    then have "windows cs start bn = []" by (subst windows.simps) simp
    with False show ?thesis by (simp add: events_between_empty process_events_def)
  next
    case True
    let ?e = "min (start + cs - 1) bn"
    from True "1.prems" have w: "windows cs start bn = (start, ?e) # windows cs (start + cs) bn"
      by (subst windows.simps) simp
    have IH: "fold ?step (windows cs (start + cs) bn) (process_events (events_between events start ?e) h)
              = process_events (events_between events (start + cs) bn)
                  (process_events (events_between events start ?e) h)"
      using "1.IH" [of "process_events (events_between events start ?e) h"] True "1.prems" by simp
    have split: "events_between events start ?e @ events_between events (start + cs) bn
                 = events_between events start bn"
    proof (cases "start + cs - 1 < bn")
      case True
      then have e: "?e = start + cs - 1" by simp
      have "events_between events start (start + cs - 1)
              @ events_between events (start + cs - 1 + 1) bn
            = events_between events start bn"
        using "1.prems" True by (intro events_between_split) simp_all
      with e show ?thesis by simp
    next
      case False
      then have e: "?e = bn" by simp
      from False have "events_between events (start + cs) bn = []"
        by (intro events_between_empty) simp
      with e show ?thesis by simp
    qed
    have "fold ?step (windows cs start bn) h
          = fold ?step (windows cs (start + cs) bn) (process_events (events_between events start ?e) h)"
      by (simp add: w)
    also note IH
    also have "process_events (events_between events (start + cs) bn)
                 (process_events (events_between events start ?e) h)
               = process_events (events_between events start ?e @ events_between events (start + cs) bn) h"
      by (simp add: process_events_def)
    finally show ?thesis using split by simp
  qed
qed

lemma fold_windows_single_pass:
  "chain_ordered events \<Longrightarrow> 0 < cs \<Longrightarrow>
   fold_windows cs events bn h = process_events (events_between events 0 bn) h"
  by (simp add: fold_windows_def fold_over_windows)

text \<open>
  The loop of the source computes this fold whenever the query of every window delivers
  the events that the window covers.
\<close>

lemma snapshot_loop_delivering:
  "\<forall>w \<in> set (windows cs start bn). query (fst w) (snd w) = Inr (events_between events (fst w) (snd w)) \<Longrightarrow>
   snapshot_loop query cs start bn h
     = Inr (fold (\<lambda>w. process_events (events_between events (fst w) (snd w))) (windows cs start bn) h)"
proof (induction query cs start bn h rule: snapshot_loop.induct)
  case (1 query cs start bn h)
  show ?case
  proof (cases "start \<le> bn \<and> 0 < cs")
    case False
    then have "windows cs start bn = []" by (subst windows.simps) simp
    with False show ?thesis by (subst snapshot_loop.simps) auto
  next
    case True
    let ?e = "min (start + cs - 1) bn"
    from True have w: "windows cs start bn = (start, ?e) # windows cs (start + cs) bn"
      by (subst windows.simps) simp
    with "1.prems" have q: "query start ?e = Inr (events_between events start ?e)"
      and rest: "\<forall>w \<in> set (windows cs (start + cs) bn).
                   query (fst w) (snd w) = Inr (events_between events (fst w) (snd w))"
      by simp_all
    from "1.IH" [OF True q rest] True q show ?thesis
      by (subst snapshot_loop.simps) (simp add: w)
  qed
qed

subsection \<open>Failing windows\<close>

lemma snapshot_loop_fails:
  "\<exists>w \<in> set (windows cs start bn). isl (query (fst w) (snd w)) \<Longrightarrow>
   isl (snapshot_loop query cs start bn h)"
proof (induction query cs start bn h rule: snapshot_loop.induct)
  case (1 query cs start bn h)
  show ?case
  proof (cases "start \<le> bn \<and> 0 < cs")
    case False
    then have "windows cs start bn = []" by (subst windows.simps) simp
    with "1.prems" show ?thesis by simp
  next
    case True
    then have w: "windows cs start bn
                  = (start, min (start + cs - 1) bn) # windows cs (start + cs) bn"
      by (subst windows.simps) simp
    show ?thesis
    proof (cases "query start (min (start + cs - 1) bn)")
      case (Inl err)
      with True show ?thesis by (subst snapshot_loop.simps) simp
    next
      case (Inr events)
      with "1.prems" w have "\<exists>w \<in> set (windows cs (start + cs) bn). isl (query (fst w) (snd w))"
        by auto
      from "1.IH" [OF True Inr this] True Inr show ?thesis
        by (subst snapshot_loop.simps) simp
    qed
  qed
qed

lemma buildHolderSnapshot_fails:
  "\<exists>w \<in> set (windows chunkSize 0 bn). isl (query pid (fst w) (snd w)) \<Longrightarrow>
   buildHolderSnapshot query pid bn = Inr []"
  using snapshot_loop_fails [of chunkSize 0 bn "query pid" "[]"]
  by (auto simp: buildHolderSnapshot_def buildHolderSnapshotWith_def split: sum.splits)

text \<open>
  The filter that the source builds constrains the \<open>id\<close> of \<open>TransferSingle\<close>, which
  the ABI of the source does not declare as indexed. With a library that refuses such a
  filter every query of the loop throws, and then the reconstruction returns the empty
  map for every position and every block.
\<close>

lemma buildHolderSnapshot_all_fail:
  assumes "\<forall>fromBlock toBlock. isl (query pid fromBlock toBlock)"
  shows "buildHolderSnapshot query pid bn = Inr []"
proof (cases "0 \<le> bn")
  case True
  then have "(0, min (0 + chunkSize - 1) bn) \<in> set (windows chunkSize 0 bn)"
    by (subst windows.simps) (simp add: chunkSize_def)
  with assms have "\<exists>w \<in> set (windows chunkSize 0 bn). isl (query pid (fst w) (snd w))"
    by force
  then show ?thesis by (rule buildHolderSnapshot_fails)
next
  case False
  then have "snapshot_loop (query pid) chunkSize 0 bn [] = Inr []"
    by (subst snapshot_loop.simps) simp
  then show ?thesis
    by (simp add: buildHolderSnapshot_def buildHolderSnapshotWith_def active_holders_def)
qed

subsection \<open>Balances of the exact fold\<close>

lemma get_or_zero_update [simp]:
  "get_or_zero (AList.update k v h) a = (if a = k then v else get_or_zero h a)"
  by (simp add: get_or_zero_def update_conv')

lemma get_or_zero_delete [simp]:
  "get_or_zero (AList.delete k h) a = (if a = k then 0 else get_or_zero h a)"
  by (simp add: get_or_zero_def delete_conv')

lemma keys_update: "fst ` set (AList.update k v h) = insert k (fst ` set h)"
  using dom_update [of k v h] by (simp add: dom_map_of_conv_image_fst)

lemma keys_delete: "fst ` set (AList.delete k h) = fst ` set h - {k}"
  using dom_delete_subset [of k h] by (auto simp: AList.delete_eq)

lemma received_snoc [simp]:
  "received (evs @ [e]) a = received evs a + (if ev_to e = a then int (ev_value e) else 0)"
  by (simp add: received_def)

lemma sent_snoc [simp]:
  "sent (evs @ [e]) a = sent evs a + (if ev_from e = a then int (ev_value e) else 0)"
  by (simp add: sent_def)

lemma no_overdraft_snoc:
  assumes "no_overdraft (evs @ [e])"
  shows "no_overdraft evs"
    and "ev_from e \<noteq> ZeroAddress \<Longrightarrow> int (ev_value e) \<le> received evs (ev_from e) - sent evs (ev_from e)"
proof -
  show "no_overdraft evs"
    unfolding no_overdraft_def
  proof (intro allI impI)
    fix i assume i: "i < length evs" and z: "ev_from (evs ! i) \<noteq> ZeroAddress"
    from assms i have "ev_from ((evs @ [e]) ! i) \<noteq> ZeroAddress \<longrightarrow>
        int (ev_value ((evs @ [e]) ! i))
          \<le> received (take i (evs @ [e])) (ev_from ((evs @ [e]) ! i))
            - sent (take i (evs @ [e])) (ev_from ((evs @ [e]) ! i))"
      unfolding no_overdraft_def by (metis length_append_singleton less_Suc_eq)
    with i z show "int (ev_value (evs ! i))
          \<le> received (take i evs) (ev_from (evs ! i)) - sent (take i evs) (ev_from (evs ! i))"
      by (simp add: nth_append)
  qed
next
  assume z: "ev_from e \<noteq> ZeroAddress"
  from assms have "ev_from ((evs @ [e]) ! length evs) \<noteq> ZeroAddress \<longrightarrow>
        int (ev_value ((evs @ [e]) ! length evs))
          \<le> received (take (length evs) (evs @ [e])) (ev_from ((evs @ [e]) ! length evs))
            - sent (take (length evs) (evs @ [e])) (ev_from ((evs @ [e]) ! length evs))"
    unfolding no_overdraft_def by (metis length_append_singleton lessI)
  with z show "int (ev_value e) \<le> received evs (ev_from e) - sent evs (ev_from e)"
    by simp
qed

lemma exact_debit_get:
  "amt \<le> get_or_zero h f \<Longrightarrow>
   get_or_zero (exact_debit f amt h) a = get_or_zero h a - (if a = f then amt else 0)"
  by (simp add: exact_debit_def Let_def)

lemma exact_credit_get:
  "get_or_zero (exact_credit t amt h) a = get_or_zero h a + (if a = t then amt else 0)"
  by (simp add: exact_credit_def)

lemma exact_debit_shape:
  assumes "distinct (map fst h)" "ZeroAddress \<notin> fst ` set h" "nonneg_ledger h" "f \<noteq> ZeroAddress"
  shows "distinct (map fst (exact_debit f amt h)) \<and> ZeroAddress \<notin> fst ` set (exact_debit f amt h)
         \<and> nonneg_ledger (exact_debit f amt h)"
  using assms
  by (simp add: exact_debit_def Let_def distinct_update distinct_delete keys_update keys_delete
      nonneg_update nonneg_delete)

lemma exact_credit_shape:
  assumes "distinct (map fst h)" "ZeroAddress \<notin> fst ` set h" "nonneg_ledger h" "t \<noteq> ZeroAddress"
    "0 \<le> amt"
  shows "distinct (map fst (exact_credit t amt h)) \<and> ZeroAddress \<notin> fst ` set (exact_credit t amt h)
         \<and> nonneg_ledger (exact_credit t amt h)"
  using assms get_or_zero_nonneg [of h t]
  by (simp add: exact_credit_def distinct_update keys_update nonneg_update)

lemma tracks_net_step:
  assumes J: "tracks_net evs h"
    and ok: "ev_from e \<noteq> ZeroAddress \<Longrightarrow> int (ev_value e) \<le> received evs (ev_from e) - sent evs (ev_from e)"
  shows "tracks_net (evs @ [e]) (exact_apply_event e h)"
proof -
  let ?amt = "int (ev_value e)"
  let ?h1 = "if ev_from e \<noteq> ZeroAddress then exact_debit (ev_from e) ?amt h else h"
  let ?h2 = "if ev_to e \<noteq> ZeroAddress then exact_credit (ev_to e) ?amt ?h1 else ?h1"
  from J have d: "distinct (map fst h)" and z: "ZeroAddress \<notin> fst ` set h"
    and n: "nonneg_ledger h"
    and g: "\<And>a. a \<noteq> ZeroAddress \<Longrightarrow> get_or_zero h a = received evs a - sent evs a"
    by (auto simp: tracks_net_def)
  have s1: "distinct (map fst ?h1) \<and> ZeroAddress \<notin> fst ` set ?h1 \<and> nonneg_ledger ?h1"
    using exact_debit_shape [OF d z n] d z n by simp
  have g1: "get_or_zero ?h1 a = get_or_zero h a - (if a = ev_from e \<and> ev_from e \<noteq> ZeroAddress then ?amt else 0)" for a
  proof (cases "ev_from e \<noteq> ZeroAddress")
    case True
    with ok g [of "ev_from e"] have "?amt \<le> get_or_zero h (ev_from e)" by simp
    from exact_debit_get [OF this] True show ?thesis by simp
  next
    case False
    then show ?thesis by simp
  qed
  have s2: "distinct (map fst ?h2) \<and> ZeroAddress \<notin> fst ` set ?h2 \<and> nonneg_ledger ?h2"
    using exact_credit_shape [of ?h1 "ev_to e" ?amt] s1 by simp
  have g2: "get_or_zero ?h2 a = get_or_zero ?h1 a + (if a = ev_to e \<and> ev_to e \<noteq> ZeroAddress then ?amt else 0)" for a
    by (simp add: exact_credit_get)
  have e: "exact_apply_event e h = ?h2"
    by (simp add: exact_apply_event_def Let_def)
  have "get_or_zero ?h2 a = received (evs @ [e]) a - sent (evs @ [e]) a" if "a \<noteq> ZeroAddress" for a
    using g [OF that] that unfolding g2 g1 by auto
  with s2 show ?thesis unfolding e tracks_net_def by blast
qed

lemma tracks_net_fold:
  "no_overdraft evs \<Longrightarrow> tracks_net evs (fold exact_apply_event evs [])"
proof (induction evs rule: rev_induct)
  case Nil
  then show ?case
    by (simp add: tracks_net_def nonneg_ledger_def get_or_zero_def received_def sent_def)
next
  case (snoc e evs)
  note parts = no_overdraft_snoc [OF snoc.prems]
  from snoc.IH [OF parts(1)] parts(2) have "tracks_net (evs @ [e]) (exact_apply_event e (fold exact_apply_event evs []))"
    by (rule tracks_net_step)
  then show ?case by simp
qed

lemma map_of_active_holders:
  "distinct (map fst h) \<Longrightarrow>
   map_of (active_holders h) a
     = (case map_of h a of None \<Rightarrow> None | Some b \<Rightarrow> if 0 < b then Some b else None)"
proof (induction h)
  case Nil
  then show ?case by (simp add: active_holders_def)
next
  case (Cons p h)
  obtain k v where p: "p = (k, v)" by (cases p)
  from Cons.prems p have notin: "k \<notin> fst ` set h" by auto
  then have "map_of h k = None" by (simp add: map_of_eq_None_iff)
  with Cons p show ?case
    by (auto simp: active_holders_def split: option.splits)
qed

lemma tracks_net_snapshot:
  assumes "tracks_net evs h"
  shows "(map_of (active_holders h) a = Some b \<longrightarrow> b = received evs a - sent evs a \<and> 0 < b) \<and>
         (received evs a - sent evs a \<le> 0 \<longrightarrow> map_of (active_holders h) a = None)"
proof -
  from assms have d: "distinct (map fst h)" and z: "ZeroAddress \<notin> fst ` set h"
    and g: "a \<noteq> ZeroAddress \<Longrightarrow> get_or_zero h a = received evs a - sent evs a"
    by (auto simp: tracks_net_def)
  show ?thesis
  proof (cases "a = ZeroAddress")
    case True
    with z have "map_of h a = None" by (simp add: map_of_eq_None_iff)
    then show ?thesis by (simp add: map_of_active_holders [OF d])
  next
    case False
    from g [OF False] show ?thesis
      by (auto simp: map_of_active_holders [OF d] get_or_zero_def split: option.splits)
  qed
qed

lemma active_holders_positive: "positive_ledger (active_holders h)"
  by (auto simp: positive_ledger_def active_holders_def)

subsection \<open>Evaluation on concrete logs\<close>

lemma num_add_small [simp]: "\<bar>a + b\<bar> < 2 ^ 53 \<Longrightarrow> num_add a b = a + b"
  by (simp add: num_add_def toNumber_small)

lemma num_sub_small [simp]: "\<bar>a - b\<bar> < 2 ^ 53 \<Longrightarrow> num_sub a b = a - b"
  by (simp add: num_sub_def toNumber_small)

lemmas ledger_eval =
  process_events_def apply_event_def debit_def credit_def get_or_zero_def ZeroAddress_def
  active_holders_def events_between_def

lemma tracks_net_present:
  assumes "tracks_net evs h" "a \<noteq> ZeroAddress" "0 < received evs a - sent evs a"
  shows "map_of (active_holders h) a = Some (received evs a - sent evs a)"
proof -
  from assms have d: "distinct (map fst h)"
    and g: "get_or_zero h a = received evs a - sent evs a"
    by (auto simp: tracks_net_def)
  from g assms(3) have "map_of h a = Some (received evs a - sent evs a)"
    by (cases "map_of h a") (simp_all add: get_or_zero_def)
  with assms(3) show ?thesis by (simp add: map_of_active_holders [OF d])
qed

text \<open>
  C1 (as amended). Whatever events are folded into whatever ledger, every entry of the
  ledger that the final filter hands out is strictly positive. When the events, folded
  into the empty ledger, never take more from a sender than the sender holds at that
  moment and their amounts add up to at most \<open>2 ^ 53\<close>, then the balance of every
  address in the resulting ledger is its total received minus its total sent, an address
  whose net is zero or negative is absent, and every address but the null address whose
  net is positive is present.
\<close>

theorem snapshot_balance_is_net:
  "positive_ledger (active_holders (process_events events h)) \<and>
   (no_overdraft events \<and> total_amount events \<le> 2 ^ 53 \<longrightarrow>
      (\<forall>a b. map_of (active_holders (process_events events [])) a = Some b \<longrightarrow>
         b = received events a - sent events a \<and> 0 < b) \<and>
      (\<forall>a. received events a - sent events a \<le> 0 \<longrightarrow>
         map_of (active_holders (process_events events [])) a = None) \<and>
      (\<forall>a. a \<noteq> ZeroAddress \<and> 0 < received events a - sent events a \<longrightarrow>
         map_of (active_holders (process_events events [])) a
           = Some (received events a - sent events a)))"
proof (intro conjI impI)
  show "positive_ledger (active_holders (process_events events h))"
    by (rule active_holders_positive)
next
  assume a: "no_overdraft events \<and> total_amount events \<le> 2 ^ 53"
  then have "0 + total_amount events \<le> 2 ^ 53" by simp
  from process_events_exact [OF bounded_empty this]
  have ex: "process_events events [] = fold exact_apply_event events []" by simp
  from a have "tracks_net events (fold exact_apply_event events [])"
    by (simp add: tracks_net_fold)
  with ex have t: "tracks_net events (process_events events [])" by simp
  from tracks_net_snapshot [OF t]
  show "\<forall>a b. map_of (active_holders (process_events events [])) a = Some b \<longrightarrow>
         b = received events a - sent events a \<and> 0 < b"
    and "\<forall>a. received events a - sent events a \<le> 0 \<longrightarrow>
         map_of (active_holders (process_events events [])) a = None"
    by blast+
  from tracks_net_present [OF t]
  show "\<forall>a. a \<noteq> ZeroAddress \<and> 0 < received events a - sent events a \<longrightarrow>
         map_of (active_holders (process_events events [])) a
           = Some (received events a - sent events a)"
    by blast
qed

lemma spec_log_ledger:
  "active_holders (process_events
     [\<lparr>ev_block = 1, ev_id = 7, ev_from = ZeroAddress, ev_to = ''0xA'', ev_value = 50\<rparr>,
      \<lparr>ev_block = 2, ev_id = 7, ev_from = ''0xA'', ev_to = ''0xB'', ev_value = 20\<rparr>] [])
   = [(''0xA'', 30), (''0xB'', 20)]"
  by (simp add: ledger_eval)

theorem snapshot_balance_is_net_witness:
  "no_overdraft
     [\<lparr>ev_block = 1, ev_id = 7, ev_from = ZeroAddress, ev_to = ''0xA'', ev_value = 50\<rparr>,
      \<lparr>ev_block = 2, ev_id = 7, ev_from = ''0xA'', ev_to = ''0xB'', ev_value = 20\<rparr>] \<and>
   total_amount
     [\<lparr>ev_block = 1, ev_id = 7, ev_from = ZeroAddress, ev_to = ''0xA'', ev_value = 50\<rparr>,
      \<lparr>ev_block = 2, ev_id = 7, ev_from = ''0xA'', ev_to = ''0xB'', ev_value = 20\<rparr>] \<le> 2 ^ 53 \<and>
   active_holders (process_events
     [\<lparr>ev_block = 1, ev_id = 7, ev_from = ZeroAddress, ev_to = ''0xA'', ev_value = 50\<rparr>,
      \<lparr>ev_block = 2, ev_id = 7, ev_from = ''0xA'', ev_to = ''0xB'', ev_value = 20\<rparr>] [])
     = [(''0xA'', 30), (''0xB'', 20)] \<and>
   positive_ledger [(''0xA'', 30), (''0xB'', 20)] \<and>
   received
     [\<lparr>ev_block = 1, ev_id = 7, ev_from = ZeroAddress, ev_to = ''0xA'', ev_value = 50\<rparr>,
      \<lparr>ev_block = 2, ev_id = 7, ev_from = ''0xA'', ev_to = ''0xB'', ev_value = 20\<rparr>] ''0xA''
   - sent
     [\<lparr>ev_block = 1, ev_id = 7, ev_from = ZeroAddress, ev_to = ''0xA'', ev_value = 50\<rparr>,
      \<lparr>ev_block = 2, ev_id = 7, ev_from = ''0xA'', ev_to = ''0xB'', ev_value = 20\<rparr>] ''0xA''
     = 30 \<and>
   received
     [\<lparr>ev_block = 1, ev_id = 7, ev_from = ZeroAddress, ev_to = ''0xA'', ev_value = 50\<rparr>,
      \<lparr>ev_block = 2, ev_id = 7, ev_from = ''0xA'', ev_to = ''0xB'', ev_value = 20\<rparr>] ''0xB''
   - sent
     [\<lparr>ev_block = 1, ev_id = 7, ev_from = ZeroAddress, ev_to = ''0xA'', ev_value = 50\<rparr>,
      \<lparr>ev_block = 2, ev_id = 7, ev_from = ''0xA'', ev_to = ''0xB'', ev_value = 20\<rparr>] ''0xB''
     = 20"
proof -
  let ?evs = "[\<lparr>ev_block = 1, ev_id = 7, ev_from = ZeroAddress, ev_to = ''0xA'', ev_value = 50\<rparr>,
      \<lparr>ev_block = 2, ev_id = 7, ev_from = ''0xA'', ev_to = ''0xB'', ev_value = 20\<rparr>]"
  have h2: "no_overdraft ?evs"
    by (simp add: no_overdraft_def less_Suc_eq received_def sent_def ZeroAddress_def)
  have h3: "total_amount ?evs \<le> 2 ^ 53" by simp
  note t = snapshot_balance_is_net [of ?evs "[]"]
  from t have p: "positive_ledger (active_holders (process_events ?evs []))"
    by (rule conjunct1)
  from t [THEN conjunct2] h2 h3
  have "\<forall>a b. map_of (active_holders (process_events ?evs [])) a = Some b \<longrightarrow>
         b = received ?evs a - sent ?evs a \<and> 0 < b"
    by blast
  then have n: "\<forall>a b. map_of [(''0xA'', 30), (''0xB'', 20)] a = Some b \<longrightarrow>
         b = received ?evs a - sent ?evs a"
    unfolding spec_log_ledger by blast
  from n have nA: "received ?evs ''0xA'' - sent ?evs ''0xA'' = 30" by simp
  from n have nB: "received ?evs ''0xB'' - sent ?evs ''0xB'' = 20" by simp
  from p have p': "positive_ledger [(''0xA'', 30), (''0xB'', 20)]"
    unfolding spec_log_ledger .
  from h2 h3 spec_log_ledger p' nA nB show ?thesis by (intro conjI)
qed

theorem overdrawn_sender_counterexample:
  "active_holders (process_events
     [\<lparr>ev_block = 1, ev_id = 7, ev_from = ''0xA'', ev_to = ZeroAddress, ev_value = 10\<rparr>,
      \<lparr>ev_block = 2, ev_id = 7, ev_from = ZeroAddress, ev_to = ''0xA'', ev_value = 5\<rparr>] [])
     = [(''0xA'', 5)] \<and>
   received
     [\<lparr>ev_block = 1, ev_id = 7, ev_from = ''0xA'', ev_to = ZeroAddress, ev_value = 10\<rparr>,
      \<lparr>ev_block = 2, ev_id = 7, ev_from = ZeroAddress, ev_to = ''0xA'', ev_value = 5\<rparr>] ''0xA''
   - sent
     [\<lparr>ev_block = 1, ev_id = 7, ev_from = ''0xA'', ev_to = ZeroAddress, ev_value = 10\<rparr>,
      \<lparr>ev_block = 2, ev_id = 7, ev_from = ZeroAddress, ev_to = ''0xA'', ev_value = 5\<rparr>] ''0xA''
     = - 5"
  by (simp add: ledger_eval received_def sent_def)

text \<open>
  C3. The fold is a function of the events, and the window size does not matter: over
  a sequence in chain order, any two positive window sizes leave the same ledger, the
  one that a single pass over all the events up to the cutoff leaves; and so the ledgers
  handed out after the final filter are the same.
\<close>

theorem snapshot_invariant_under_chunking:
  assumes "chain_ordered events" "0 < cs1" "0 < cs2"
  shows "fold_windows cs1 events bn h = fold_windows cs2 events bn h \<and>
         fold_windows cs1 events bn h = process_events (events_between events 0 bn) h \<and>
         active_holders (fold_windows cs1 events bn h)
           = active_holders (fold_windows cs2 events bn h)"
  using assms by (simp add: fold_windows_single_pass)

lemma four_block_windows:
  "windows 4 0 12 = [(0, 3), (4, 7), (8, 11), (12, 12)]"
  by (simp add: windows.simps)

theorem snapshot_invariant_under_chunking_witness:
  "chain_ordered
     [\<lparr>ev_block = 1, ev_id = 7, ev_from = ZeroAddress, ev_to = ''0xA'', ev_value = 50\<rparr>,
      \<lparr>ev_block = 5, ev_id = 7, ev_from = ''0xA'', ev_to = ''0xB'', ev_value = 20\<rparr>,
      \<lparr>ev_block = 12, ev_id = 7, ev_from = ''0xA'', ev_to = ''0xB'', ev_value = 30\<rparr>] \<and>
   (0::int) < 4 \<and> (0::int) < chunkSize \<and>
   windows 4 0 12 = [(0, 3), (4, 7), (8, 11), (12, 12)] \<and>
   fold_windows 4
     [\<lparr>ev_block = 1, ev_id = 7, ev_from = ZeroAddress, ev_to = ''0xA'', ev_value = 50\<rparr>,
      \<lparr>ev_block = 5, ev_id = 7, ev_from = ''0xA'', ev_to = ''0xB'', ev_value = 20\<rparr>,
      \<lparr>ev_block = 12, ev_id = 7, ev_from = ''0xA'', ev_to = ''0xB'', ev_value = 30\<rparr>] 12 []
   = fold_windows chunkSize
     [\<lparr>ev_block = 1, ev_id = 7, ev_from = ZeroAddress, ev_to = ''0xA'', ev_value = 50\<rparr>,
      \<lparr>ev_block = 5, ev_id = 7, ev_from = ''0xA'', ev_to = ''0xB'', ev_value = 20\<rparr>,
      \<lparr>ev_block = 12, ev_id = 7, ev_from = ''0xA'', ev_to = ''0xB'', ev_value = 30\<rparr>] 12 [] \<and>
   fold_windows 4
     [\<lparr>ev_block = 1, ev_id = 7, ev_from = ZeroAddress, ev_to = ''0xA'', ev_value = 50\<rparr>,
      \<lparr>ev_block = 5, ev_id = 7, ev_from = ''0xA'', ev_to = ''0xB'', ev_value = 20\<rparr>,
      \<lparr>ev_block = 12, ev_id = 7, ev_from = ''0xA'', ev_to = ''0xB'', ev_value = 30\<rparr>] 12 []
   = [(''0xB'', 50)]"
proof -
  let ?evs = "[\<lparr>ev_block = 1, ev_id = 7, ev_from = ZeroAddress, ev_to = ''0xA'', ev_value = 50\<rparr>,
      \<lparr>ev_block = 5, ev_id = 7, ev_from = ''0xA'', ev_to = ''0xB'', ev_value = 20\<rparr>,
      \<lparr>ev_block = 12, ev_id = 7, ev_from = ''0xA'', ev_to = ''0xB'', ev_value = 30\<rparr>]"
  have h1: "chain_ordered ?evs" by (simp add: chain_ordered_def)
  have h2: "(0::int) < 4" by simp
  have h3: "(0::int) < chunkSize" by (simp add: chunkSize_def)
  have v: "process_events (events_between ?evs 0 12) [] = [(''0xB'', 50)]"
    by (simp add: ledger_eval)
  note t = snapshot_invariant_under_chunking [OF h1 h2 h3, of 12 "[]"]
  from t have e1: "fold_windows 4 ?evs 12 [] = fold_windows chunkSize ?evs 12 []"
    by (rule conjunct1)
  from t [THEN conjunct2, THEN conjunct1]
  have e2: "fold_windows 4 ?evs 12 [] = [(''0xB'', 50)]"
    unfolding v .
  from h1 h2 h3 four_block_windows e1 e2 show ?thesis by (intro conjI)
qed

subsection \<open>The winner record\<close>

text \<open>
  With the stub that the source has for the position ids, \<open>trackMarketWinners\<close> ends
  with \<open>null\<close> before it looks at the chain.
\<close>

lemma trackMarketWinners_stub:
  "getPositionId env = getPositionId_stub \<Longrightarrow>
   trackMarketWinners env marketWinners mid outcome resolutionBlockNumber = (None, marketWinners)"
  by (simp add: trackMarketWinners_def getPositionId_stub_def)

lemma make_winner_data_empty:
  "make_winner_data mid outcome pid bn ts []
   = \<lparr>marketId = mid, winningOutcome = outcome, positionId = pid, resolutionBlock = bn,
      winners = [], totalPayout = 0, winnerCount = 0, timestamp = ts\<rparr>"
  by (simp add: make_winner_data_def sum_balances_def)

text \<open>
  C2 (as amended). When the query of any window fails, the reconstruction drops what it
  has folded so far and returns the empty ledger, as a regular result: the failure is
  not passed on. \<open>trackMarketWinners\<close> then records and returns a winner record with
  no winners and a total payout of zero.
\<close>

theorem failed_window_gives_empty_ledger:
  assumes "\<exists>w \<in> set (windows chunkSize 0 bn). isl (queryFilter env pid (fst w) (snd w))"
  shows "buildHolderSnapshot (queryFilter env) pid bn = Inr [] \<and>
         (getPositionId env mid outcome = Some pid \<and> pid \<noteq> 0 \<and> bn \<noteq> 0 \<longrightarrow>
          trackMarketWinners env marketWinners mid outcome (Some bn)
            = (Some \<lparr>marketId = mid, winningOutcome = outcome, positionId = pid,
                     resolutionBlock = bn, winners = [], totalPayout = 0, winnerCount = 0,
                     timestamp = clock env\<rparr>,
               AList.update mid
                 \<lparr>marketId = mid, winningOutcome = outcome, positionId = pid,
                  resolutionBlock = bn, winners = [], totalPayout = 0, winnerCount = 0,
                  timestamp = clock env\<rparr> marketWinners))"
proof -
  from assms have e: "buildHolderSnapshot (queryFilter env) pid bn = Inr []"
    by (rule buildHolderSnapshot_fails)
  then show ?thesis
    by (simp add: trackMarketWinners_def make_winner_data_empty Let_def)
qed

lemma late_windows: "windows chunkSize 0 15000 = [(0, 9999), (10000, 15000)]"
  by (simp add: windows.simps chunkSize_def)

theorem failed_window_gives_empty_ledger_witness:
  "(10000, 15000) \<in> set (windows chunkSize 0 15000) \<and>
   rpc_fails_late 7 0 9999
     = Inr [\<lparr>ev_block = 1, ev_id = 7, ev_from = ZeroAddress, ev_to = ''0xA'', ev_value = 50\<rparr>] \<and>
   isl (rpc_fails_late 7 10000 15000) \<and>
   buildHolderSnapshot rpc_fails_late 7 15000 = Inr [] \<and>
   trackMarketWinners
     \<lparr>getPositionId = position_seven, getBlockNumber = Inr 20000,
      queryFilter = rpc_fails_late, clock = ''2025-01-01''\<rparr> [] ''m1'' ''Yes'' (Some 15000)
   = (Some \<lparr>marketId = ''m1'', winningOutcome = ''Yes'', positionId = 7,
             resolutionBlock = 15000, winners = [], totalPayout = 0, winnerCount = 0,
             timestamp = ''2025-01-01''\<rparr>,
      [(''m1'', \<lparr>marketId = ''m1'', winningOutcome = ''Yes'', positionId = 7,
             resolutionBlock = 15000, winners = [], totalPayout = 0, winnerCount = 0,
             timestamp = ''2025-01-01''\<rparr>)])"
proof -
  let ?env = "\<lparr>getPositionId = position_seven, getBlockNumber = Inr 20000,
      queryFilter = rpc_fails_late, clock = ''2025-01-01''\<rparr>"
  have w: "(10000, 15000) \<in> set (windows chunkSize 0 15000)"
    by (simp add: late_windows)
  have f: "isl (rpc_fails_late 7 10000 15000)" by (simp add: rpc_fails_late_def)
  have g: "rpc_fails_late 7 0 9999
     = Inr [\<lparr>ev_block = 1, ev_id = 7, ev_from = ZeroAddress, ev_to = ''0xA'', ev_value = 50\<rparr>]"
    by (simp add: rpc_fails_late_def)
  from w f have h: "\<exists>w \<in> set (windows chunkSize 0 15000). isl (queryFilter ?env 7 (fst w) (snd w))"
    by force
  from failed_window_gives_empty_ledger [OF h, of "''m1''" "''Yes''" "[]"] w f g
  show ?thesis by (simp add: position_seven_def)
qed

theorem failure_not_reported_counterexample:
  "isl (rpc_down 7 0 5) \<and>
   buildHolderSnapshot rpc_down 7 5 = Inr [] \<and>
   buildHolderSnapshot rpc_no_events 7 5 = Inr [] \<and>
   fst (trackMarketWinners
     \<lparr>getPositionId = position_seven, getBlockNumber = Inr 20000,
      queryFilter = rpc_down, clock = ''2025-01-01''\<rparr> [] ''m1'' ''Yes'' (Some 5))
   = Some \<lparr>marketId = ''m1'', winningOutcome = ''Yes'', positionId = 7,
            resolutionBlock = 5, winners = [], totalPayout = 0, winnerCount = 0,
            timestamp = ''2025-01-01''\<rparr>"
proof -
  have a: "isl (rpc_down 7 0 5)" by (simp add: rpc_down_def)
  have b: "buildHolderSnapshot rpc_down 7 5 = Inr []"
    by (simp add: buildHolderSnapshot_def buildHolderSnapshotWith_def chunkSize_def
        snapshot_loop.simps [of _ _ 0] rpc_down_def)
  have c: "buildHolderSnapshot rpc_no_events 7 5 = Inr []"
    by (simp add: buildHolderSnapshot_def buildHolderSnapshotWith_def chunkSize_def
        snapshot_loop.simps [of _ _ 0] snapshot_loop.simps [of _ _ 10000] rpc_no_events_def
        process_events_def active_holders_def)
  from a b c show ?thesis
    by (simp add: trackMarketWinners_def position_seven_def make_winner_data_empty Let_def)
qed

lemma sig_shift_two53_1: "sig_shift 9007199254740993 = 1"
  by (subst sig_shift.simps, simp, subst sig_shift.simps, simp)

lemma parseInt_rounds: "parseInt 9007199254740993 = 9007199254740992"
  by (simp add: parseInt_def toNumber_def Let_def sig_shift_two53_1)

text \<open>
  C9 (as amended). The balances, the payouts and their total are computed with
  JavaScript numbers. When the amounts of the events add up to at most \<open>2 ^ 53\<close>,
  every one of these numbers is the one that exact integer arithmetic gives: the fold
  is the exact fold, the winners are the entries of the exact ledger, each payout is
  the winner's tokens, and the total payout is the exact sum.
\<close>

theorem winner_arithmetic_exact_below_two53:
  assumes "total_amount events \<le> 2 ^ 53"
  shows "process_events events [] = fold exact_apply_event events [] \<and>
         active_holders (process_events events []) = exact_snapshot events \<and>
         map (\<lambda>w. (address w, winningTokens w))
             (winners (make_winner_data mid outcome pid bn ts
                (active_holders (process_events events []))))
           = exact_snapshot events \<and>
         map payoutUSDC
             (winners (make_winner_data mid outcome pid bn ts
                (active_holders (process_events events []))))
           = map snd (exact_snapshot events) \<and>
         totalPayout (make_winner_data mid outcome pid bn ts
                (active_holders (process_events events [])))
           = sum_list (map snd (exact_snapshot events)) \<and>
         winnerCount (make_winner_data mid outcome pid bn ts
                (active_holders (process_events events [])))
           = length (exact_snapshot events)"
proof -
  from assms have le: "0 + total_amount events \<le> 2 ^ 53" by simp
  note ex = process_events_exact [OF bounded_empty le]
  from ex have fold_eq: "process_events events [] = fold exact_apply_event events []"
    by (rule conjunct1)
  then have snap: "active_holders (process_events events []) = exact_snapshot events"
    by (simp add: exact_snapshot_def)
  from ex have "bounded_ledger (exact_snapshot events) (0 + total_amount events)"
    unfolding exact_snapshot_def by (intro bounded_active_holders) simp
  from sum_balances_exact [OF this le]
  have total: "sum_balances (exact_snapshot events) = sum_list (map snd (exact_snapshot events))" .
  let ?wd = "make_winner_data mid outcome pid bn ts (exact_snapshot events)"
  have w1: "map (\<lambda>w. (address w, winningTokens w)) (winners ?wd) = exact_snapshot events"
    by (simp add: make_winner_data_def comp_def case_prod_beta)
  have w2: "map payoutUSDC (winners ?wd) = map snd (exact_snapshot events)"
    by (simp add: make_winner_data_def comp_def case_prod_beta)
  have w3: "totalPayout ?wd = sum_list (map snd (exact_snapshot events))"
    using total by (simp add: make_winner_data_def)
  have w4: "winnerCount ?wd = length (exact_snapshot events)"
    by (simp add: make_winner_data_def)
  from fold_eq snap w1 w2 w3 w4 show ?thesis unfolding snap by (intro conjI)
qed

lemmas exact_eval =
  exact_snapshot_def exact_apply_event_def exact_debit_def exact_credit_def

theorem winner_arithmetic_exact_below_two53_witness:
  "total_amount
     [\<lparr>ev_block = 1, ev_id = 7, ev_from = ZeroAddress, ev_to = ''0xA'', ev_value = 100\<rparr>] \<le> 2 ^ 53 \<and>
   exact_snapshot
     [\<lparr>ev_block = 1, ev_id = 7, ev_from = ZeroAddress, ev_to = ''0xA'', ev_value = 100\<rparr>]
     = [(''0xA'', 100)] \<and>
   active_holders (process_events
     [\<lparr>ev_block = 1, ev_id = 7, ev_from = ZeroAddress, ev_to = ''0xA'', ev_value = 100\<rparr>] [])
     = [(''0xA'', 100)] \<and>
   make_winner_data ''m1'' ''Yes'' 7 10 ''2025-01-01''
     (active_holders (process_events
        [\<lparr>ev_block = 1, ev_id = 7, ev_from = ZeroAddress, ev_to = ''0xA'', ev_value = 100\<rparr>] []))
   = \<lparr>marketId = ''m1'', winningOutcome = ''Yes'', positionId = 7, resolutionBlock = 10,
      winners = [\<lparr>address = ''0xA'', winningTokens = 100, payoutUSDC = 100\<rparr>],
      totalPayout = 100, winnerCount = 1, timestamp = ''2025-01-01''\<rparr>"
proof -
  let ?evs = "[\<lparr>ev_block = 1, ev_id = 7, ev_from = ZeroAddress, ev_to = ''0xA'', ev_value = 100\<rparr>]"
  have h: "total_amount ?evs \<le> 2 ^ 53" by simp
  have v: "exact_snapshot ?evs = [(''0xA'', 100)]"
    by (simp add: exact_eval ledger_eval)
  note t = winner_arithmetic_exact_below_two53 [OF h, of "''m1''" "''Yes''" 7 10 "''2025-01-01''"]
  from t [THEN conjunct2, THEN conjunct1]
  have a: "active_holders (process_events ?evs []) = [(''0xA'', 100)]"
    unfolding v .
  from t [THEN conjunct2, THEN conjunct2, THEN conjunct2, THEN conjunct2, THEN conjunct1]
  have tp: "totalPayout (make_winner_data ''m1'' ''Yes'' 7 10 ''2025-01-01'' [(''0xA'', 100)]) = 100"
    unfolding v a by simp
  have "make_winner_data ''m1'' ''Yes'' 7 10 ''2025-01-01'' [(''0xA'', 100)]
      = \<lparr>marketId = ''m1'', winningOutcome = ''Yes'', positionId = 7, resolutionBlock = 10,
      winners = [\<lparr>address = ''0xA'', winningTokens = 100, payoutUSDC = 100\<rparr>],
      totalPayout = totalPayout (make_winner_data ''m1'' ''Yes'' 7 10 ''2025-01-01'' [(''0xA'', 100)]),
      winnerCount = 1, timestamp = ''2025-01-01''\<rparr>"
    by (simp add: make_winner_data_def)
  with tp have w: "make_winner_data ''m1'' ''Yes'' 7 10 ''2025-01-01'' [(''0xA'', 100)]
      = \<lparr>marketId = ''m1'', winningOutcome = ''Yes'', positionId = 7, resolutionBlock = 10,
      winners = [\<lparr>address = ''0xA'', winningTokens = 100, payoutUSDC = 100\<rparr>],
      totalPayout = 100, winnerCount = 1, timestamp = ''2025-01-01''\<rparr>"
    by simp
  from h v a w show ?thesis unfolding a by (intro conjI)
qed

theorem rounded_amount_counterexample:
  "active_holders (process_events
     [\<lparr>ev_block = 1, ev_id = 7, ev_from = ZeroAddress, ev_to = ''0xA'',
       ev_value = 9007199254740993\<rparr>] [])
     = [(''0xA'', 9007199254740992)] \<and>
   exact_snapshot
     [\<lparr>ev_block = 1, ev_id = 7, ev_from = ZeroAddress, ev_to = ''0xA'',
       ev_value = 9007199254740993\<rparr>]
     = [(''0xA'', 9007199254740993)]"
  by (simp add: ledger_eval exact_eval parseInt_rounds toNumber_two53 num_add_def)

section \<open>Properties of the request dispatcher\<close>

lemma spacing_inv_dispatch:
  assumes "spacing_inv s" "lastRequestTime s + rate_delay \<le> now s"
  shows "spacing_inv (dispatch r s)"
proof -
  from assms have "spaced ((now s, r) # dispatched s)"
    by (cases "dispatched s") (auto simp: spacing_inv_def)
  with assms show ?thesis by (simp add: spacing_inv_def dispatch_def)
qed

lemma spacing_inv_loop_head: "spacing_inv s \<Longrightarrow> spacing_inv (loop_head s)"
proof (cases "requestQueue s")
  case Nil
  assume "spacing_inv s"
  with Nil show ?thesis by (simp add: loop_head_def spacing_inv_def)
next
  case (Cons r rest)
  assume inv: "spacing_inv s"
  let ?s1 = "s\<lparr>requestQueue := rest\<rparr>"
  from inv have inv1: "spacing_inv ?s1" by (simp add: spacing_inv_def)
  show ?thesis
  proof (cases "now s - lastRequestTime s < rate_delay")
    case True
    with Cons inv show ?thesis by (simp add: loop_head_def Let_def spacing_inv_def)
  next
    case False
    then have "lastRequestTime ?s1 + rate_delay \<le> now ?s1" by simp
    from spacing_inv_dispatch [OF inv1 this] Cons False show ?thesis
      by (simp add: loop_head_def Let_def)
  qed
qed

lemma spacing_inv_drop_worker:
  "spacing_inv s \<Longrightarrow> spacing_inv (s\<lparr>settled := x\<rparr>)"
  "spacing_inv s \<Longrightarrow> spacing_inv (s\<lparr>requestQueue := q\<rparr>)"
  "spacing_inv s \<Longrightarrow> spacing_inv (s\<lparr>worker := AwaitBackoff r d\<rparr>)"
  by (simp_all add: spacing_inv_def)

lemma spacing_inv_step:
  assumes inv: "spacing_inv s" and due: "ev = TimerFires \<longrightarrow> spacing_timer_due s"
  shows "spacing_inv (step ev s)"
proof (cases ev)
  case (Enqueue r)
  from inv have "spacing_inv (s\<lparr>requestQueue := requestQueue s @ [r]\<rparr>)"
    by (rule spacing_inv_drop_worker)
  then show ?thesis using Enqueue
    by (simp add: makeRequest_def processQueue_def spacing_inv_loop_head)
next
  case (Tick d)
  with inv show ?thesis by (simp add: spacing_inv_def)
next
  case TimerFires
  show ?thesis
  proof (cases "worker s")
    case (AwaitSpacing r deadline)
    with due TimerFires have "deadline \<le> now s" by (simp add: spacing_timer_due_def)
    with inv AwaitSpacing have "lastRequestTime s + rate_delay \<le> now s"
      by (simp add: spacing_inv_def)
    from spacing_inv_dispatch [OF inv this] TimerFires AwaitSpacing show ?thesis by simp
  next
    case (AwaitBackoff r deadline)
    from inv have "spacing_inv (requeue r s)"
      unfolding requeue_def by (rule spacing_inv_drop_worker)
    then have "spacing_inv (loop_head (requeue r s))" by (rule spacing_inv_loop_head)
    with TimerFires AwaitBackoff show ?thesis by simp
  qed (use inv TimerFires in simp_all)
next
  case (Response res)
  show ?thesis
  proof (cases "worker s")
    case (AwaitResponse r)
    have "spacing_inv (on_response r res s)"
      using inv
      by (auto simp: on_response_def spacing_inv_loop_head spacing_inv_drop_worker
          split: sum.splits)
    with Response AwaitResponse show ?thesis by simp
  qed (use inv Response in simp_all)
qed

lemma spacing_inv_run: "spacing_inv s \<Longrightarrow> punctual evs s \<Longrightarrow> spacing_inv (run evs s)"
  unfolding run_def
  by (induction evs arbitrary: s) (simp_all add: spacing_inv_step)

lemma spacing_inv_initial: "spacing_inv (initial t0)"
  by (simp add: spacing_inv_def initial_def)

subsection \<open>Every request is accounted for\<close>

lemma loop_head_pending:
  "mset (pending (loop_head s)) = mset (map rid (requestQueue s))"
  by (cases "requestQueue s") (simp_all add: loop_head_def pending_def Let_def dispatch_def)

lemma loop_head_pending_unfolded:
  "image_mset rid (mset (current (worker (loop_head s))))
     + image_mset rid (mset (requestQueue (loop_head s)))
   = image_mset rid (mset (requestQueue s))"
  using loop_head_pending [of s] by (simp add: pending_def)

lemma loop_head_settled [simp]: "settled (loop_head s) = settled s"
  by (cases "requestQueue s") (simp_all add: loop_head_def Let_def dispatch_def)

lemma loop_head_idle_inv: "idle_inv (loop_head s)"
  by (cases "requestQueue s") (simp_all add: loop_head_def Let_def dispatch_def idle_inv_def)

lemma loop_head_idle: "worker (loop_head s) = Idle \<Longrightarrow> requestQueue (loop_head s) = []"
  using loop_head_idle_inv [of s] by (simp add: idle_inv_def)

lemma idle_inv_step: "idle_inv s \<Longrightarrow> idle_inv (step ev s)"
proof (cases ev)
  case (Enqueue r)
  assume "idle_inv s"
  then have "idle_inv (processQueue (s\<lparr>requestQueue := requestQueue s @ [r]\<rparr>))"
    using loop_head_idle_inv [of "s\<lparr>requestQueue := requestQueue s @ [r]\<rparr>"]
    by (simp add: processQueue_def) (simp add: idle_inv_def)
  then show ?thesis using Enqueue by (simp add: makeRequest_def)
next
  case (Tick d)
  assume "idle_inv s"
  with Tick show ?thesis by (simp add: idle_inv_def)
next
  case TimerFires
  assume "idle_inv s"
  with TimerFires show ?thesis
    by (cases "worker s") (auto simp: loop_head_idle dispatch_def idle_inv_def)
next
  case (Response res)
  assume "idle_inv s"
  with Response show ?thesis
    by (cases "worker s")
      (auto simp: on_response_def loop_head_idle idle_inv_def split: sum.splits)
qed

lemma idle_inv_run: "idle_inv s \<Longrightarrow> idle_inv (run evs s)"
  unfolding run_def by (induction evs arbitrary: s) (simp_all add: idle_inv_step)

lemma accounted_step:
  "idle_inv s \<Longrightarrow> accounted (step ev s) = mset (enqueued [ev]) + accounted s"
proof (cases ev)
  case (Enqueue r)
  assume inv: "idle_inv s"
  let ?s1 = "s\<lparr>requestQueue := requestQueue s @ [r]\<rparr>"
  have "mset (pending (processQueue ?s1)) = {#rid r#} + mset (pending s)"
  proof (cases "worker s = Idle")
    case True
    with inv have "requestQueue s = []" by (simp add: idle_inv_def)
    with True show ?thesis
      by (simp add: processQueue_def loop_head_pending) (simp add: pending_def)
  next
    case False
    then show ?thesis by (simp add: processQueue_def pending_def)
  qed
  moreover have "settled (processQueue ?s1) = settled s"
    by (simp add: processQueue_def)
  ultimately show ?thesis using Enqueue by (simp add: accounted_def makeRequest_def)
next
  case (Tick d)
  then show ?thesis by (simp add: accounted_def pending_def)
next
  case TimerFires
  then show ?thesis
    by (cases "worker s")
      (simp_all add: accounted_def loop_head_pending_unfolded requeue_def pending_def
        dispatch_def)
next
  case (Response res)
  show ?thesis
  proof (cases "worker s")
    case (AwaitResponse r)
    then have "accounted (on_response r res s) = accounted s"
      by (cases res)
        (simp_all add: on_response_def accounted_def loop_head_pending_unfolded pending_def)
    with Response AwaitResponse show ?thesis by simp
  qed (use Response in simp_all)
qed

lemma enqueued_Cons: "mset (enqueued (ev # evs)) = mset (enqueued [ev]) + mset (enqueued evs)"
  by (cases ev) simp_all

lemma accounted_run:
  "idle_inv s \<Longrightarrow> accounted (run evs s) = mset (enqueued evs) + accounted s"
proof (induction evs arbitrary: s)
  case Nil
  then show ?case by (simp add: run_def)
next
  case (Cons ev evs)
  from Cons.prems have "idle_inv (step ev s)" by (rule idle_inv_step)
  from Cons.IH [OF this] accounted_step [OF Cons.prems, of ev] show ?case
    by (simp add: run_def enqueued_Cons [of ev evs] ac_simps)
qed

lemma initial_inv: "idle_inv (initial t0)" "accounted (initial t0) = {#}"
  by (simp_all add: idle_inv_def initial_def accounted_def pending_def)

lemmas dispatcher_eval =
  run_def makeRequest_def processQueue_def loop_head_def dispatch_def on_response_def
  requeue_def initial_def rate_delay_def retry_delay_def is_transient_def pending_def
  spacing_timer_due_def req1_def req2_def rate_limited_def timed_out_def Let_def

text \<open>
  C8 (as amended). Before a dispatch the worker looks at the clock once. When less
  than \<open>rate_delay\<close> has passed since the previous dispatch, it dispatches nothing and
  sets a timer that is due \<open>rate_delay\<close> after the previous dispatch; otherwise it
  dispatches at once. When the timer fires it dispatches, without another look at the
  clock. So in every run in which no spacing timer fires before it is due, any two
  consecutive dispatches are at least \<open>rate_delay\<close> apart.
\<close>

theorem dispatches_are_spaced:
  "(punctual evs (initial t0) \<longrightarrow> spaced (dispatched (run evs (initial t0)))) \<and>
   (requestQueue s = r # rest \<and> now s - lastRequestTime s < rate_delay \<longrightarrow>
      worker (loop_head s) = AwaitSpacing r (lastRequestTime s + rate_delay) \<and>
      dispatched (loop_head s) = dispatched s) \<and>
   (requestQueue s = r # rest \<and> \<not> now s - lastRequestTime s < rate_delay \<longrightarrow>
      dispatched (loop_head s) = (now s, r) # dispatched s) \<and>
   (worker s = AwaitSpacing r deadline \<longrightarrow>
      dispatched (step TimerFires s) = (now s, r) # dispatched s)"
proof (intro conjI impI)
  assume "punctual evs (initial t0)"
  with spacing_inv_initial have "spacing_inv (run evs (initial t0))"
    by (rule spacing_inv_run)
  then show "spaced (dispatched (run evs (initial t0)))" by (simp add: spacing_inv_def)
qed (simp_all add: loop_head_def Let_def dispatch_def)

theorem dispatches_are_spaced_witness:
  "punctual [Enqueue req1, Enqueue req2, Tick 30, Response (Inr ''a''), Tick 70, TimerFires]
      (initial 1000000) \<and>
   dispatched (run [Enqueue req1, Enqueue req2, Tick 30, Response (Inr ''a''), Tick 70, TimerFires]
      (initial 1000000))
     = [(1000100, req2), (1000000, req1)] \<and>
   spaced (dispatched
     (run [Enqueue req1, Enqueue req2, Tick 30, Response (Inr ''a''), Tick 70, TimerFires]
        (initial 1000000))) \<and>
   worker (run [Enqueue req1, Enqueue req2, Tick 30, Response (Inr ''a'')] (initial 1000000))
     = AwaitSpacing req2 1000100"
proof -
  let ?evs = "[Enqueue req1, Enqueue req2, Tick 30, Response (Inr ''a''), Tick 70, TimerFires]"
  have p: "punctual ?evs (initial 1000000)" by (simp add: dispatcher_eval)
  have d: "dispatched (run ?evs (initial 1000000)) = [(1000100, req2), (1000000, req1)]"
    by (simp add: dispatcher_eval)
  have w: "worker (run [Enqueue req1, Enqueue req2, Tick 30, Response (Inr ''a'')] (initial 1000000))
      = AwaitSpacing req2 1000100"
    by (simp add: dispatcher_eval)
  note t = dispatches_are_spaced [where evs = ?evs and ?t0.0 = 1000000]
  from t [THEN conjunct1] p have sp: "spaced (dispatched (run ?evs (initial 1000000)))"
    by (rule mp)
  from p d sp w show ?thesis by (intro conjI)
qed

theorem early_timer_counterexample:
  "worker (run [Enqueue req1, Enqueue req2, Tick 30, Response (Inr ''a'')] (initial 1000000))
     = AwaitSpacing req2 1000100 \<and>
   dispatched (run [Enqueue req1, Enqueue req2, Tick 30, Response (Inr ''a''), Tick 69, TimerFires]
      (initial 1000000))
     = [(1000099, req2), (1000000, req1)] \<and>
   \<not> spaced [(1000099, req2), (1000000, req1)]"
  by (simp add: dispatcher_eval)

text \<open>
  C6. A failure that is transient (status 429 or code \<open>ECONNRESET\<close>) and meets a
  request with retries left settles nothing: the worker sets a timer of \<open>retry_delay\<close>
  and holds the request until the timer fires, whatever is enqueued in the meantime;
  then it puts the request, with one retry less, in front of the queue and goes on, so
  that this request is the next one it takes. Any other failure rejects the request's
  promise with the error, a response resolves it. Every request that was enqueued is
  pending or has been settled, once; whenever the worker is idle, the settled requests
  are the enqueued ones, each once.
\<close>

theorem transient_failure_requeues_in_front:
  "(worker s = AwaitResponse r \<and> 0 < retries r \<and> is_transient err \<longrightarrow>
      step (Response (Inl err)) s = s\<lparr>worker := AwaitBackoff r (now s + retry_delay)\<rparr>) \<and>
   (worker s = AwaitBackoff r deadline \<longrightarrow>
      step (Response res) s = s \<and>
      worker (step (Enqueue r2) s) = AwaitBackoff r deadline \<and>
      requestQueue (step (Enqueue r2) s) = requestQueue s @ [r2] \<and>
      settled (step (Enqueue r2) s) = settled s) \<and>
   (worker s = AwaitBackoff r deadline \<longrightarrow>
      step TimerFires s
        = loop_head (s\<lparr>requestQueue := r\<lparr>retries := retries r - 1\<rparr> # requestQueue s\<rparr>) \<and>
      current (worker (step TimerFires s)) = [r\<lparr>retries := retries r - 1\<rparr>] \<and>
      requestQueue (step TimerFires s) = requestQueue s \<and>
      settled (step TimerFires s) = settled s) \<and>
   (worker s = AwaitResponse r \<and> \<not> (0 < retries r \<and> is_transient err) \<longrightarrow>
      settled (step (Response (Inl err)) s) = (rid r, Rejected err) # settled s) \<and>
   (worker s = AwaitResponse r \<longrightarrow>
      settled (step (Response (Inr data)) s) = (rid r, Resolved data) # settled s) \<and>
   mset (enqueued evs)
     = mset (pending (run evs (initial t0))) + mset (map fst (settled (run evs (initial t0)))) \<and>
   (worker (run evs (initial t0)) = Idle \<longrightarrow>
      mset (map fst (settled (run evs (initial t0)))) = mset (enqueued evs))"
proof -
  let ?final = "run evs (initial t0)"
  have acc: "mset (enqueued evs) = mset (pending ?final) + mset (map fst (settled ?final))"
    using accounted_run [OF initial_inv(1), of evs t0] initial_inv(2) [of t0]
    by (simp add: accounted_def)
  have "idle_inv ?final" using initial_inv(1) by (rule idle_inv_run)
  then have idle: "worker ?final = Idle \<Longrightarrow> pending ?final = []"
    by (simp add: idle_inv_def pending_def)
  have a1: "worker s = AwaitResponse r \<and> 0 < retries r \<and> is_transient err \<longrightarrow>
      step (Response (Inl err)) s = s\<lparr>worker := AwaitBackoff r (now s + retry_delay)\<rparr>"
    by (simp add: on_response_def)
  have a2: "worker s = AwaitBackoff r deadline \<longrightarrow>
      step (Response res) s = s \<and>
      worker (step (Enqueue r2) s) = AwaitBackoff r deadline \<and>
      requestQueue (step (Enqueue r2) s) = requestQueue s @ [r2] \<and>
      settled (step (Enqueue r2) s) = settled s"
    by (simp add: makeRequest_def processQueue_def)
  have a3: "worker s = AwaitBackoff r deadline \<longrightarrow>
      step TimerFires s
        = loop_head (s\<lparr>requestQueue := r\<lparr>retries := retries r - 1\<rparr> # requestQueue s\<rparr>) \<and>
      current (worker (step TimerFires s)) = [r\<lparr>retries := retries r - 1\<rparr>] \<and>
      requestQueue (step TimerFires s) = requestQueue s \<and>
      settled (step TimerFires s) = settled s"
    by (simp add: requeue_def loop_head_def Let_def dispatch_def)
  have b1: "worker s = AwaitResponse r \<and> \<not> (0 < retries r \<and> is_transient err) \<longrightarrow>
      settled (step (Response (Inl err)) s) = (rid r, Rejected err) # settled s"
    by (auto simp: on_response_def)
  have b2: "worker s = AwaitResponse r \<longrightarrow>
      settled (step (Response (Inr data)) s) = (rid r, Resolved data) # settled s"
    by (simp add: on_response_def)
  have fin: "worker ?final = Idle \<longrightarrow> mset (map fst (settled ?final)) = mset (enqueued evs)"
    using acc idle by simp
  from a1 a2 a3 b1 b2 acc fin show ?thesis by (intro conjI)
qed

theorem transient_failure_requeues_in_front_witness:
  "worker (run [Enqueue req1, Enqueue req2] (initial 1000000)) = AwaitResponse req1 \<and>
   requestQueue (run [Enqueue req1, Enqueue req2] (initial 1000000)) = [req2] \<and>
   0 < retries req1 \<and> is_transient rate_limited \<and>
   step (Response (Inl rate_limited)) (run [Enqueue req1, Enqueue req2] (initial 1000000))
     = (run [Enqueue req1, Enqueue req2] (initial 1000000))
         \<lparr>worker := AwaitBackoff req1 1002000\<rparr> \<and>
   current (worker (run [Enqueue req1, Enqueue req2, Response (Inl rate_limited), Tick 2000,
       TimerFires] (initial 1000000)))
     = [req1\<lparr>retries := 0\<rparr>] \<and>
   requestQueue (run [Enqueue req1, Enqueue req2, Response (Inl rate_limited), Tick 2000,
       TimerFires] (initial 1000000))
     = [req2] \<and>
   settled (step (Response (Inl timed_out)) (run [Enqueue req1, Enqueue req2] (initial 1000000)))
     = [(1, Rejected timed_out)] \<and>
   settled (run [Enqueue req1, Enqueue req2, Response (Inl rate_limited), Tick 2000, TimerFires,
       Response (Inl rate_limited), Tick 100, TimerFires, Response (Inr ''ok'')] (initial 1000000))
     = [(2, Resolved ''ok''), (1, Rejected rate_limited)] \<and>
   worker (run [Enqueue req1, Enqueue req2, Response (Inl rate_limited), Tick 2000, TimerFires,
       Response (Inl rate_limited), Tick 100, TimerFires, Response (Inr ''ok'')] (initial 1000000))
     = Idle \<and>
   mset (map fst (settled (run [Enqueue req1, Enqueue req2, Response (Inl rate_limited), Tick 2000,
       TimerFires, Response (Inl rate_limited), Tick 100, TimerFires, Response (Inr ''ok'')]
       (initial 1000000))))
     = {#1, 2#}"
proof -
  let ?s1 = "run [Enqueue req1, Enqueue req2] (initial 1000000)"
  let ?s4 = "run [Enqueue req1, Enqueue req2, Response (Inl rate_limited), Tick 2000, TimerFires]
       (initial 1000000)"
  let ?evs = "[Enqueue req1, Enqueue req2, Response (Inl rate_limited), Tick 2000, TimerFires,
       Response (Inl rate_limited), Tick 100, TimerFires, Response (Inr ''ok'')]"
  have w1: "worker ?s1 = AwaitResponse req1" by (simp add: dispatcher_eval)
  have q1: "requestQueue ?s1 = [req2]" by (simp add: dispatcher_eval)
  have n1: "now ?s1 + retry_delay = 1002000" by (simp add: dispatcher_eval)
  have r1: "0 < retries req1" by (simp add: req1_def)
  have tr: "is_transient rate_limited" by (simp add: is_transient_def rate_limited_def)
  have nt: "\<not> (0 < retries req1 \<and> is_transient timed_out)"
    by (simp add: is_transient_def timed_out_def)
  have st1: "settled ?s1 = []" by (simp add: dispatcher_eval)
  have c4: "current (worker ?s4) = [req1\<lparr>retries := 0\<rparr>]" by (simp add: dispatcher_eval)
  have q4: "requestQueue ?s4 = [req2]" by (simp add: dispatcher_eval)
  have fs: "settled (run ?evs (initial 1000000)) = [(2, Resolved ''ok''), (1, Rejected rate_limited)]"
    by (simp add: dispatcher_eval)
  have fw: "worker (run ?evs (initial 1000000)) = Idle" by (simp add: dispatcher_eval)
  have en: "mset (enqueued ?evs) = {#1, 2#}" by (simp add: req1_def req2_def)
  note t1 = transient_failure_requeues_in_front
    [where s = ?s1 and r = req1 and err = rate_limited and evs = ?evs and ?t0.0 = 1000000]
  note t2 = transient_failure_requeues_in_front
    [where s = ?s1 and r = req1 and err = timed_out and evs = ?evs and ?t0.0 = 1000000]
  from t1 [THEN conjunct1] w1 r1 tr n1
  have a1: "step (Response (Inl rate_limited)) ?s1 = ?s1\<lparr>worker := AwaitBackoff req1 1002000\<rparr>"
    by simp
  from t2 [THEN conjunct2, THEN conjunct2, THEN conjunct2, THEN conjunct1] w1 nt st1
  have b1: "settled (step (Response (Inl timed_out)) ?s1) = [(1, Rejected timed_out)]"
    by (simp add: req1_def)
  note last = t1 [THEN conjunct2, THEN conjunct2, THEN conjunct2, THEN conjunct2,
      THEN conjunct2, THEN conjunct2]
  from last fw have "mset (map fst (settled (run ?evs (initial 1000000)))) = mset (enqueued ?evs)"
    by (rule mp)
  then have m: "mset (map fst (settled (run ?evs (initial 1000000)))) = {#1, 2#}"
    by (simp only: en)
  from w1 q1 r1 tr a1 c4 q4 b1 fs fw m show ?thesis by (intro conjI)
qed

section \<open>Properties of the streaming channel\<close>

subsection \<open>Reconnect delays\<close>

lemma sig_shift_le: "m div 2 ^ j < 2 ^ 53 \<Longrightarrow> sig_shift m \<le> j"
proof (induction j arbitrary: m)
  case 0
  then show ?case by (simp add: sig_shift_small)
next
  case (Suc j)
  show ?case
  proof (cases "m < 2 ^ 53")
    case True
    then show ?thesis by (simp add: sig_shift_small)
  next
    case False
    then have eq: "sig_shift m = Suc (sig_shift (m div 2))"
      by (subst sig_shift.simps) simp
    from Suc.prems have "(m div 2) div 2 ^ j < 2 ^ 53" by (simp add: div_mult2_eq)
    from Suc.IH [OF this] eq show ?thesis by simp
  qed
qed

lemma toNumber_scaled:
  assumes "\<bar>b\<bar> < 2 ^ 53"
  shows "toNumber (b * 2 ^ k) = b * 2 ^ k"
proof -
  define m where "m = nat \<bar>b * 2 ^ k\<bar>"
  define e where "e = sig_shift m"
  have m: "m = nat \<bar>b\<bar> * 2 ^ k"
    by (simp add: m_def abs_mult nat_mult_distrib nat_power_eq)
  from assms have "m div 2 ^ k < 2 ^ 53" by (simp add: m)
  then have "e \<le> k" unfolding e_def by (rule sig_shift_le)
  then have "(2::nat) ^ e dvd 2 ^ k" by (rule le_imp_power_dvd)
  then have dvd: "2 ^ e dvd m" unfolding m by (rule dvd_mult)
  then have r: "m mod 2 ^ e = 0" by simp
  from dvd have q: "m div 2 ^ e * 2 ^ e = m" by simp
  have "toNumber (b * 2 ^ k) = sgn (b * 2 ^ k) * int (m div 2 ^ e * 2 ^ e)"
    unfolding toNumber_def Let_def m_def [symmetric] e_def [symmetric] r by simp
  also have "\<dots> = sgn (b * 2 ^ k) * \<bar>b * 2 ^ k\<bar>" unfolding q by (simp add: m_def)
  also have "\<dots> = b * 2 ^ k" by (simp only: sgn_mult_abs)
  finally show ?thesis .
qed

lemma delay_finite:
  assumes "b \<noteq> 0" "\<bar>b\<bar> < 2 ^ 53" "\<bar>b\<bar> * 2 ^ k < 2 ^ 1024"
  shows "js_times b (math_pow2 k) = Finite (b * 2 ^ k)"
proof -
  from assms(1) have "1 \<le> \<bar>b\<bar>" by simp
  then have "(2::int) ^ k \<le> \<bar>b\<bar> * 2 ^ k" by (simp add: mult_le_cancel_right1)
  from this assms(3) have "(2::int) ^ k < 2 ^ 1024" by (rule le_less_trans)
  then have k: "k < 1024" by (simp only: power_strict_increasing_iff [of 2] one_less_numeral_iff semiring_norm)
  have "\<bar>b * 2 ^ k\<bar> < 2 ^ 1024" using assms(3) by (simp add: abs_mult)
  then have "in_range (b * 2 ^ k) = Finite (b * 2 ^ k)"
    unfolding in_range_def by (simp add: abs_less_iff)
  with k assms(2) show ?thesis by (simp add: math_pow2_def toNumber_scaled)
qed




lemma scheduleReconnect_config [simp]:
  "maxReconnectAttempts (scheduleReconnect s) = maxReconnectAttempts s"
  "reconnectDelay (scheduleReconnect s) = reconnectDelay s"
  by (simp_all add: scheduleReconnect_def Let_def)




lemma default_delay [simp]:
  "k < 30 \<Longrightarrow> js_times 5000 (math_pow2 k) = Finite (5000 * 2 ^ k)"
proof -
  assume k: "k < 30"
  then have "(2::int) ^ k \<le> 2 ^ 30" by (intro power_increasing) simp_all
  then have "\<bar>5000::int\<bar> * 2 ^ k \<le> 5000 * 2 ^ 30" by simp
  also have "\<dots> < 2 ^ 1024" by simp
  finally show ?thesis by (intro delay_finite) simp_all
qed




text \<open>
  With a maximum raised beyond \<open>1024\<close>, the delay of attempt \<open>1025\<close> is no longer a
  number of milliseconds.
\<close>

lemma delay_overflows: "js_times 5000 (math_pow2 1024) = PosInfinity"
  by (simp add: math_pow2_def)

subsection \<open>Fan-out\<close>

lemma members_Some [simp]: "members (map Some cs) = cs"
  by (induction cs) simp_all

lemma members_append [simp]: "members (xs @ ys) = members xs @ members ys"
  by (induction xs rule: members.induct) simp_all

lemma set_members: "set (members places) = {c. Some c \<in> set places}"
  by (induction places rule: members.induct) auto

lemma distinct_addRealtimeCallback:
  "distinct (members (realtimeCallbacks s)) \<Longrightarrow>
   distinct (members (realtimeCallbacks (addRealtimeCallback c s)))"
  by (simp add: addRealtimeCallback_def set_members)

lemma notify_loop_quiet:
  assumes "\<forall>c h. Some c \<in> set (realtimeCallbacks s) \<longrightarrow>
             set_ops (beh c d h) = [] \<and> throws (beh c d h) \<noteq> Some NoMessage"
  shows "notify_loop beh d i s
    = Some (Inr (s\<lparr>delivered := delivered s @ map (\<lambda>c. (c, d)) (members (drop i (realtimeCallbacks s))),
                   logged := logged s @ error_lines beh d (delivered s) (members (drop i (realtimeCallbacks s)))\<rparr>))"
  using assms
proof (induction "length (realtimeCallbacks s) - i" arbitrary: i s)
  case 0
  then have "length (realtimeCallbacks s) \<le> i" by simp
  then show ?case by (subst notify_loop.simps) simp
next
  case (Suc n)
  then have i: "i < length (realtimeCallbacks s)" by simp
  then have dr: "drop i (realtimeCallbacks s)
      = realtimeCallbacks s ! i # drop (Suc i) (realtimeCallbacks s)"
    by (simp add: Cons_nth_drop_Suc)
  show ?case
  proof (cases "realtimeCallbacks s ! i")
    case None
    from Suc.hyps(2) have "n = length (realtimeCallbacks s) - Suc i" by simp
    from Suc.hyps(1) [OF this Suc.prems] None i dr show ?thesis
      by (subst notify_loop.simps) simp
  next
    case (Some c)
    with i have mem: "Some c \<in> set (realtimeCallbacks s)" by (metis nth_mem)
    with Suc.prems have quiet: "set_ops (beh c d (delivered s)) = []"
      and nn: "throws (beh c d (delivered s)) \<noteq> Some NoMessage" by simp_all
    let ?s1 = "s\<lparr>delivered := delivered s @ [(c, d)]\<rparr>"
    from quiet have call: "call beh d c s = ?s1" by (simp add: call_def)
    show ?thesis
    proof (cases "throws (beh c d (delivered s))")
      case None
      have "n = length (realtimeCallbacks ?s1) - Suc i" using Suc.hyps(2) by simp
      moreover have "\<forall>c h. Some c \<in> set (realtimeCallbacks ?s1) \<longrightarrow>
             set_ops (beh c d h) = [] \<and> throws (beh c d h) \<noteq> Some NoMessage"
        using Suc.prems by simp
      ultimately have "notify_loop beh d (Suc i) ?s1
        = Some (Inr (?s1\<lparr>delivered := delivered ?s1 @ map (\<lambda>c. (c, d)) (members (drop (Suc i) (realtimeCallbacks ?s1))),
                   logged := logged ?s1 @ error_lines beh d (delivered ?s1) (members (drop (Suc i) (realtimeCallbacks ?s1)))\<rparr>))"
        by (rule Suc.hyps(1))
      with None Some i dr call show ?thesis
        by (subst notify_loop.simps) (simp add: raised_def)
    next
      case (Some t)
      with nn obtain m where t: "t = WithMessage m" by (cases t) simp_all
      let ?s2 = "log_line (''Error in realtime callback: '' @ m) ?s1"
      have "n = length (realtimeCallbacks ?s2) - Suc i" using Suc.hyps(2) by (simp add: log_line_def)
      moreover have "\<forall>c h. Some c \<in> set (realtimeCallbacks ?s2) \<longrightarrow>
             set_ops (beh c d h) = [] \<and> throws (beh c d h) \<noteq> Some NoMessage"
        using Suc.prems by (simp add: log_line_def)
      ultimately have "notify_loop beh d (Suc i) ?s2
        = Some (Inr (?s2\<lparr>delivered := delivered ?s2 @ map (\<lambda>c. (c, d)) (members (drop (Suc i) (realtimeCallbacks ?s2))),
                   logged := logged ?s2 @ error_lines beh d (delivered ?s2) (members (drop (Suc i) (realtimeCallbacks ?s2)))\<rparr>))"
        by (rule Suc.hyps(1))
      with Some t \<open>realtimeCallbacks s ! i = Some c\<close> i dr call show ?thesis
        by (subst notify_loop.simps) (simp add: raised_def log_line_def)
    qed
  qed
qed

lemma notifyRealtimeUpdate_quiet:
  "\<forall>c h. Some c \<in> set (realtimeCallbacks s) \<longrightarrow>
     set_ops (beh c d h) = [] \<and> throws (beh c d h) \<noteq> Some NoMessage \<Longrightarrow>
   notifyRealtimeUpdate beh d s
    = Some (Inr (s\<lparr>delivered := delivered s @ map (\<lambda>c. (c, d)) (members (realtimeCallbacks s)),
                   logged := logged s @ error_lines beh d (delivered s) (members (realtimeCallbacks s))\<rparr>))"
  using notify_loop_quiet [of s beh d 0] by (simp add: notifyRealtimeUpdate_def)

lemma notifyRealtimeUpdate_catch_throws:
  "realtimeCallbacks s = Some c # places \<Longrightarrow> throws (beh c d (delivered s)) = Some NoMessage \<Longrightarrow>
   notifyRealtimeUpdate beh d s = Some (Inl (CatchThrows, call beh d c s))"
  unfolding notifyRealtimeUpdate_def by (subst notify_loop.simps) (simp add: raised_def)

text \<open>
  C4 (as amended). Take a fan-out of an event in which no callback of the set registers
  or removes a callback and none throws a value whose message cannot be logged. It
  returns, having called every callback of the set once, in the order of the set, with
  the event; for a callback that throws, the error is logged and the loop goes on with
  the next one. Nothing else changes: the set is the same afterwards, so the callback
  that threw stays registered and is called again for the next event. The set has no
  repetitions, and registering keeps it so, which makes the one call per callback one
  call per subscriber. When the first callback throws \<open>null\<close> or \<open>undefined\<close>, the fan-out
  itself throws after this one call, and the callbacks behind it do not get the event.
\<close>

theorem failing_callback_stays_registered:
  "((\<forall>c h. Some c \<in> set (realtimeCallbacks s) \<longrightarrow>
       set_ops (beh c d h) = [] \<and> throws (beh c d h) \<noteq> Some NoMessage) \<longrightarrow>
    notifyRealtimeUpdate beh d s
      = Some (Inr (s\<lparr>delivered := delivered s @ map (\<lambda>c. (c, d)) (members (realtimeCallbacks s)),
                     logged := logged s @ error_lines beh d (delivered s) (members (realtimeCallbacks s))\<rparr>))) \<and>
   (distinct (members (realtimeCallbacks s)) \<longrightarrow>
      distinct (members (realtimeCallbacks (addRealtimeCallback c' s))) \<and>
      distinct (map (\<lambda>c. (c, d)) (members (realtimeCallbacks s)))) \<and>
   (realtimeCallbacks s = Some c # places \<and> throws (beh c d (delivered s)) = Some NoMessage \<longrightarrow>
      notifyRealtimeUpdate beh d s = Some (Inl (CatchThrows, call beh d c s)))"
proof (intro conjI impI)
  assume "\<forall>c h. Some c \<in> set (realtimeCallbacks s) \<longrightarrow>
       set_ops (beh c d h) = [] \<and> throws (beh c d h) \<noteq> Some NoMessage"
  then show "notifyRealtimeUpdate beh d s
      = Some (Inr (s\<lparr>delivered := delivered s @ map (\<lambda>c. (c, d)) (members (realtimeCallbacks s)),
                     logged := logged s @ error_lines beh d (delivered s) (members (realtimeCallbacks s))\<rparr>))"
    by (rule notifyRealtimeUpdate_quiet)
next
  assume "distinct (members (realtimeCallbacks s))"
  then show "distinct (members (realtimeCallbacks (addRealtimeCallback c' s)))"
    by (rule distinct_addRealtimeCallback)
next
  assume "distinct (members (realtimeCallbacks s))"
  then show "distinct (map (\<lambda>c. (c, d)) (members (realtimeCallbacks s)))"
    by (simp add: distinct_map inj_on_def)
next
  assume "realtimeCallbacks s = Some c # places \<and> throws (beh c d (delivered s)) = Some NoMessage"
  then show "notifyRealtimeUpdate beh d s = Some (Inl (CatchThrows, call beh d c s))"
    using notifyRealtimeUpdate_catch_throws [of s c places beh d] by simp
qed

lemmas fanout_eval =
  two_callbacks_def first_throws_def first_throws_null_def first_changes_set_def
  addRealtimeCallback_def removeRealtimeCallback_def call_def raised_def log_line_def

theorem failing_callback_stays_registered_witness:
  "notifyRealtimeUpdate first_throws ''e1'' two_callbacks
     = Some (Inr \<lparr>realtimeCallbacks = [Some 1, Some 2],
                  delivered = [(1, ''e1''), (2, ''e1'')],
                  logged = [''Error in realtime callback: boom'']\<rparr>) \<and>
   distinct (members (realtimeCallbacks two_callbacks)) \<and>
   distinct (members (realtimeCallbacks (addRealtimeCallback 2 two_callbacks))) \<and>
   notifyRealtimeUpdate first_throws_null ''e1'' two_callbacks
     = Some (Inl (CatchThrows,
          \<lparr>realtimeCallbacks = [Some 1, Some 2], delivered = [(1, ''e1'')], logged = []\<rparr>))"
proof -
  have q: "\<forall>c h. Some c \<in> set (realtimeCallbacks two_callbacks) \<longrightarrow>
       set_ops (first_throws c ''e1'' h) = [] \<and> throws (first_throws c ''e1'' h) \<noteq> Some NoMessage"
    by (simp add: first_throws_def)
  have d: "distinct (members (realtimeCallbacks two_callbacks))" by (simp add: two_callbacks_def)
  have n: "realtimeCallbacks two_callbacks = Some 1 # [Some 2] \<and>
      throws (first_throws_null 1 ''e1'' (delivered two_callbacks)) = Some NoMessage"
    by (simp add: two_callbacks_def first_throws_null_def)
  note inst = failing_callback_stays_registered
    [where s = two_callbacks and beh = first_throws and d = "''e1''" and c' = 2]
  note inst_null = failing_callback_stays_registered
    [where s = two_callbacks and beh = first_throws_null and d = "''e1''" and c = 1
       and places = "[Some 2]"]
  from inst [THEN conjunct1] q
  have r1: "notifyRealtimeUpdate first_throws ''e1'' two_callbacks
     = Some (Inr \<lparr>realtimeCallbacks = [Some 1, Some 2],
                  delivered = [(1, ''e1''), (2, ''e1'')],
                  logged = [''Error in realtime callback: boom'']\<rparr>)"
    by (simp add: two_callbacks_def first_throws_def)
  from inst [THEN conjunct2, THEN conjunct1] d
  have r2: "distinct (members (realtimeCallbacks (addRealtimeCallback 2 two_callbacks)))"
    by blast
  from inst_null [THEN conjunct2, THEN conjunct2] n
  have r3: "notifyRealtimeUpdate first_throws_null ''e1'' two_callbacks
     = Some (Inl (CatchThrows,
          \<lparr>realtimeCallbacks = [Some 1, Some 2], delivered = [(1, ''e1'')], logged = []\<rparr>))"
    by (simp add: fanout_eval)
  from r1 d r2 r3 show ?thesis by (intro conjI)
qed

theorem failing_callback_not_removed_counterexample:
  "throws (first_throws 1 ''e1'' []) = Some (WithMessage ''boom'') \<and>
   notifyRealtimeUpdate first_throws ''e1'' two_callbacks
     = Some (Inr \<lparr>realtimeCallbacks = [Some 1, Some 2],
                  delivered = [(1, ''e1''), (2, ''e1'')],
                  logged = [''Error in realtime callback: boom'']\<rparr>) \<and>
   notifyRealtimeUpdate first_throws ''e2''
       \<lparr>realtimeCallbacks = [Some 1, Some 2],
        delivered = [(1, ''e1''), (2, ''e1'')],
        logged = [''Error in realtime callback: boom'']\<rparr>
     = Some (Inr \<lparr>realtimeCallbacks = [Some 1, Some 2],
                  delivered = [(1, ''e1''), (2, ''e1''), (1, ''e2''), (2, ''e2'')],
                  logged = [''Error in realtime callback: boom'',
                            ''Error in realtime callback: boom'']\<rparr>)"
proof -
  have t: "throws (first_throws 1 ''e1'' []) = Some (WithMessage ''boom'')"
    by (simp add: first_throws_def)
  have r1: "notifyRealtimeUpdate first_throws ''e1'' two_callbacks
     = Some (Inr \<lparr>realtimeCallbacks = [Some 1, Some 2],
                  delivered = [(1, ''e1''), (2, ''e1'')],
                  logged = [''Error in realtime callback: boom'']\<rparr>)"
    by (subst notifyRealtimeUpdate_quiet) (simp_all add: two_callbacks_def first_throws_def)
  have r2: "notifyRealtimeUpdate first_throws ''e2''
       \<lparr>realtimeCallbacks = [Some 1, Some 2],
        delivered = [(1, ''e1''), (2, ''e1'')],
        logged = [''Error in realtime callback: boom'']\<rparr>
     = Some (Inr \<lparr>realtimeCallbacks = [Some 1, Some 2],
                  delivered = [(1, ''e1''), (2, ''e1''), (1, ''e2''), (2, ''e2'')],
                  logged = [''Error in realtime callback: boom'',
                            ''Error in realtime callback: boom'']\<rparr>)"
    by (subst notifyRealtimeUpdate_quiet) (simp_all add: first_throws_def)
  from t r1 r2 show ?thesis by (intro conjI)
qed

text \<open>
  The loop walks the set as it is at each step: a callback registered by the first
  callback is called for the same event, and one removed by it is not.
\<close>

lemma set_changed_during_fanout:
  "notifyRealtimeUpdate first_changes_set ''e1'' two_callbacks
     = Some (Inr \<lparr>realtimeCallbacks = [Some 1, None, Some 3],
                  delivered = [(1, ''e1''), (3, ''e1'')],
                  logged = []\<rparr>)"
  unfolding notifyRealtimeUpdate_def
  apply (subst notify_loop.simps, simp add: fanout_eval)
  apply (subst notify_loop.simps, simp add: fanout_eval)
  apply (subst notify_loop.simps, simp add: fanout_eval)
  apply (subst notify_loop.simps, simp add: fanout_eval)
  done

subsection \<open>Market resolution\<close>

lemma findIndex_Some:
  "findIndex P xs = Some i \<Longrightarrow> i < length xs \<and> P (xs ! i) \<and> (\<forall>j < i. \<not> P (xs ! j))"
proof (induction xs arbitrary: i)
  case Nil
  then show ?case by simp
next
  case (Cons x xs)
  show ?case
  proof (cases "P x")
    case True
    with Cons.prems show ?thesis by simp
  next
    case False
    with Cons.prems obtain i' where i': "findIndex P xs = Some i'" "i = Suc i'"
      by auto
    from Cons.IH [OF i'(1)] False i'(2) show ?thesis
      by (auto simp: less_Suc_eq_0_disj)
  qed
qed

lemma findIndex_None: "findIndex P xs = None \<longleftrightarrow> \<not> list_ex P xs"
  by (induction xs) auto

lemma event_frame_refl: "event_frame mid ev ev"
  by (simp add: event_frame_def same_but_status_def)

lemma event_frame_resolved:
  assumes "findIndex (\<lambda>m. market_id m = mid) (markets ev) = Some i"
  shows "event_frame mid ev
           (ev\<lparr>markets := (markets ev)[i := (markets ev ! i)\<lparr>status := ''resolved'', resolvedAt := Some t1\<rparr>],
               resolvedMarketsCount := resolvedMarketsCount ev + 1,
               activeMarketsCount := activeMarketsCount ev - 1\<rparr>)"
proof -
  from findIndex_Some [OF assms] have i: "i < length (markets ev)"
    and m: "market_id (markets ev ! i) = mid" by auto
  show ?thesis
    unfolding event_frame_def same_but_status_def
    using i m by (auto simp: nth_list_update)
qed

lemma resolve_in_active_frame:
  "resolve_in_active mid t1 t2 xs = (ys, out) \<Longrightarrow>
   list_all2 (\<lambda>x y. fst y = fst x \<and> event_frame mid (snd x) (snd y)) xs ys"
proof (induction xs arbitrary: ys out)
  case Nil
  then show ?case by simp
next
  case (Cons x xs)
  obtain eid ev where x: "x = (eid, ev)" by (cases x)
  show ?case
  proof (cases "findIndex (\<lambda>m. market_id m = mid) (markets ev)")
    case None
    obtain rest' notices where r: "resolve_in_active mid t1 t2 xs = (rest', notices)"
      by (cases "resolve_in_active mid t1 t2 xs")
    with Cons.prems x None have ys: "ys = (eid, ev) # rest'" by simp
    from Cons.IH [OF r] ys x show ?thesis by (simp add: event_frame_refl)
  next
    case (Some i)
    with Cons.prems x have ys: "ys = (eid, ev\<lparr>markets := (markets ev)[i := (markets ev ! i)\<lparr>status := ''resolved'', resolvedAt := Some t1\<rparr>],
               resolvedMarketsCount := resolvedMarketsCount ev + 1,
               activeMarketsCount := activeMarketsCount ev - 1\<rparr>) # xs"
      by (simp add: Let_def)
    have "list_all2 (\<lambda>x y. fst y = fst x \<and> event_frame mid (snd x) (snd y)) xs xs"
      by (simp add: list_all2_same event_frame_refl)
    with ys x event_frame_resolved [OF Some] show ?thesis by simp
  qed
qed

lemma resolve_in_active_absent:
  "\<not> list_ex (has_market mid) xs \<Longrightarrow> resolve_in_active mid t1 t2 xs = (xs, [])"
proof (induction xs)
  case Nil
  then show ?case by simp
next
  case (Cons x xs)
  obtain eid ev where x: "x = (eid, ev)" by (cases x)
  from Cons.prems x have "findIndex (\<lambda>m. market_id m = mid) (markets ev) = None"
    by (simp add: findIndex_None has_market_def)
  with Cons x show ?case by simp
qed

lemma resolve_in_active_found:
  assumes "findIndex (has_market mid) xs = Some k"
    and "findIndex (\<lambda>m. market_id m = mid) (markets (snd (xs ! k))) = Some i"
  shows "resolve_in_active mid t1 t2 xs =
     (xs[k := (fst (xs ! k),
               (snd (xs ! k))
                 \<lparr>markets := (markets (snd (xs ! k)))
                    [i := (markets (snd (xs ! k)) ! i)\<lparr>status := ''resolved'', resolvedAt := Some t1\<rparr>],
                  resolvedMarketsCount := resolvedMarketsCount (snd (xs ! k)) + 1,
                  activeMarketsCount := activeMarketsCount (snd (xs ! k)) - 1\<rparr>)],
      [\<lparr>n_type = ''market_resolved'', n_eventId = fst (xs ! k), n_marketId = mid,
        n_market = (markets (snd (xs ! k)) ! i)\<lparr>status := ''resolved'', resolvedAt := Some t1\<rparr>,
        n_title = title (snd (xs ! k)),
        n_activeMarketsCount = activeMarketsCount (snd (xs ! k)) - 1,
        n_resolvedMarketsCount = resolvedMarketsCount (snd (xs ! k)) + 1,
        n_timestamp = t2\<rparr>])"
  using assms
proof (induction xs arbitrary: k)
  case Nil
  then show ?case by simp
next
  case (Cons x xs)
  obtain eid ev where x: "x = (eid, ev)" by (cases x)
  show ?case
  proof (cases "has_market mid x")
    case True
    with Cons.prems(1) have k: "k = 0" by simp
    with Cons.prems(2) x show ?thesis by (simp add: Let_def)
  next
    case False
    with x have none: "findIndex (\<lambda>m. market_id m = mid) (markets ev) = None"
      by (simp add: findIndex_None has_market_def)
    from False Cons.prems(1) obtain k' where k': "findIndex (has_market mid) xs = Some k'" "k = Suc k'"
      by auto
    from Cons.prems(2) k'(2) have "findIndex (\<lambda>m. market_id m = mid) (markets (snd (xs ! k'))) = Some i"
      by simp
    from Cons.IH [OF k'(1) this] none x k'(2) show ?thesis by simp
  qed
qed

lemma findIndex_ex: "list_ex P xs \<Longrightarrow> \<exists>k. findIndex P xs = Some k"
  using findIndex_None [of P xs] by (cases "findIndex P xs") simp_all

text \<open>
  C10. A resolution notice for a market changes nothing but the \<open>active\<close> map, keeps
  the keys of that map and their order, and leaves the \<open>resolved\<close> map alone. In every
  event only the list of markets and the two counters can differ afterwards, the sum of
  the counters is the same, and in every market only \<open>status\<close> and \<open>resolvedAt\<close> can
  differ; a market with another id is the same as before. When no active event has the
  market, the state is the same and nothing is emitted. Otherwise the first event that
  has the market gets its first market of that id marked as resolved, one counter
  incremented and the other decremented, and one notice is emitted.
\<close>

theorem resolution_changes_one_market:
  assumes "handleMarketResolution mid t1 t2 s = (s', out)"
  shows "s'\<lparr>active := active s\<rparr> = s \<and>
         resolved s' = resolved s \<and>
         map fst (active s') = map fst (active s) \<and>
         list_all2 (\<lambda>x y. fst y = fst x \<and> event_frame mid (snd x) (snd y)) (active s) (active s') \<and>
         (\<not> list_ex (has_market mid) (active s) \<longrightarrow> s' = s \<and> out = []) \<and>
         (list_ex (has_market mid) (active s) \<longrightarrow>
            (\<exists>k i. findIndex (has_market mid) (active s) = Some k \<and>
               findIndex (\<lambda>m. market_id m = mid) (markets (snd (active s ! k))) = Some i \<and>
               active s' =
                 (active s)[k := (fst (active s ! k),
                   (snd (active s ! k))
                     \<lparr>markets := (markets (snd (active s ! k)))
                        [i := (markets (snd (active s ! k)) ! i)
                                \<lparr>status := ''resolved'', resolvedAt := Some t1\<rparr>],
                      resolvedMarketsCount := resolvedMarketsCount (snd (active s ! k)) + 1,
                      activeMarketsCount := activeMarketsCount (snd (active s ! k)) - 1\<rparr>)] \<and>
               out =
                 [\<lparr>n_type = ''market_resolved'', n_eventId = fst (active s ! k), n_marketId = mid,
                   n_market = (markets (snd (active s ! k)) ! i)
                                \<lparr>status := ''resolved'', resolvedAt := Some t1\<rparr>,
                   n_title = title (snd (active s ! k)),
                   n_activeMarketsCount = activeMarketsCount (snd (active s ! k)) - 1,
                   n_resolvedMarketsCount = resolvedMarketsCount (snd (active s ! k)) + 1,
                   n_timestamp = t2\<rparr>]))"
proof -
  obtain ys where r: "resolve_in_active mid t1 t2 (active s) = (ys, out)" and s': "s' = s\<lparr>active := ys\<rparr>"
    using assms by (auto simp: handleMarketResolution_def Let_def split: prod.splits)
  note frame = resolve_in_active_frame [OF r]
  have keys: "map fst ys = map fst (active s)"
    using frame by (induction rule: list_all2_induct) simp_all
  have absent: "\<not> list_ex (has_market mid) (active s) \<longrightarrow> s' = s \<and> out = []"
    using resolve_in_active_absent [of mid "active s" t1 t2] r s' by auto
  have found: "list_ex (has_market mid) (active s) \<longrightarrow>
            (\<exists>k i. findIndex (has_market mid) (active s) = Some k \<and>
               findIndex (\<lambda>m. market_id m = mid) (markets (snd (active s ! k))) = Some i \<and>
               ys =
                 (active s)[k := (fst (active s ! k),
                   (snd (active s ! k))
                     \<lparr>markets := (markets (snd (active s ! k)))
                        [i := (markets (snd (active s ! k)) ! i)
                                \<lparr>status := ''resolved'', resolvedAt := Some t1\<rparr>],
                      resolvedMarketsCount := resolvedMarketsCount (snd (active s ! k)) + 1,
                      activeMarketsCount := activeMarketsCount (snd (active s ! k)) - 1\<rparr>)] \<and>
               out =
                 [\<lparr>n_type = ''market_resolved'', n_eventId = fst (active s ! k), n_marketId = mid,
                   n_market = (markets (snd (active s ! k)) ! i)
                                \<lparr>status := ''resolved'', resolvedAt := Some t1\<rparr>,
                   n_title = title (snd (active s ! k)),
                   n_activeMarketsCount = activeMarketsCount (snd (active s ! k)) - 1,
                   n_resolvedMarketsCount = resolvedMarketsCount (snd (active s ! k)) + 1,
                   n_timestamp = t2\<rparr>])"
  proof
    assume "list_ex (has_market mid) (active s)"
    then obtain k where k: "findIndex (has_market mid) (active s) = Some k"
      using findIndex_ex by blast
    from findIndex_Some [OF k] have "has_market mid (active s ! k)" by simp
    then obtain i where i: "findIndex (\<lambda>m. market_id m = mid) (markets (snd (active s ! k))) = Some i"
      unfolding has_market_def using findIndex_ex by blast
    from resolve_in_active_found [OF k i, of t1 t2] r k i show "\<exists>k i. findIndex (has_market mid) (active s) = Some k \<and>
               findIndex (\<lambda>m. market_id m = mid) (markets (snd (active s ! k))) = Some i \<and>
               ys =
                 (active s)[k := (fst (active s ! k),
                   (snd (active s ! k))
                     \<lparr>markets := (markets (snd (active s ! k)))
                        [i := (markets (snd (active s ! k)) ! i)
                                \<lparr>status := ''resolved'', resolvedAt := Some t1\<rparr>],
                      resolvedMarketsCount := resolvedMarketsCount (snd (active s ! k)) + 1,
                      activeMarketsCount := activeMarketsCount (snd (active s ! k)) - 1\<rparr>)] \<and>
               out =
                 [\<lparr>n_type = ''market_resolved'', n_eventId = fst (active s ! k), n_marketId = mid,
                   n_market = (markets (snd (active s ! k)) ! i)
                                \<lparr>status := ''resolved'', resolvedAt := Some t1\<rparr>,
                   n_title = title (snd (active s ! k)),
                   n_activeMarketsCount = activeMarketsCount (snd (active s ! k)) - 1,
                   n_resolvedMarketsCount = resolvedMarketsCount (snd (active s ! k)) + 1,
                   n_timestamp = t2\<rparr>]"
      by (intro exI [of _ k] exI [of _ i]) simp
  qed
  have a: "s'\<lparr>active := active s\<rparr> = s" and b: "resolved s' = resolved s"
    and c: "active s' = ys"
    using s' by simp_all
  from a b keys frame absent found show ?thesis unfolding c by (intro conjI)
qed

lemma example_resolution:
  "handleMarketResolution ''m2'' ''T1'' ''T2'' example_store =
     (example_store_resolved,
      [\<lparr>n_type = ''market_resolved'', n_eventId = ''e2'', n_marketId = ''m2'',
        n_market = \<lparr>market_id = ''m2'', question = ''C?'', status = ''resolved'',
                    resolvedAt = Some ''T1''\<rparr>,
        n_title = ''Final'', n_activeMarketsCount = 1, n_resolvedMarketsCount = 1,
        n_timestamp = ''T2''\<rparr>])"
  by (simp add: handleMarketResolution_def example_store_def example_store_resolved_def Let_def)

theorem resolution_changes_one_market_witness:
  "handleMarketResolution ''m2'' ''T1'' ''T2'' example_store =
     (example_store_resolved,
      [\<lparr>n_type = ''market_resolved'', n_eventId = ''e2'', n_marketId = ''m2'',
        n_market = \<lparr>market_id = ''m2'', question = ''C?'', status = ''resolved'',
                    resolvedAt = Some ''T1''\<rparr>,
        n_title = ''Final'', n_activeMarketsCount = 1, n_resolvedMarketsCount = 1,
        n_timestamp = ''T2''\<rparr>]) \<and>
   list_ex (has_market ''m2'') (active example_store) \<and>
   resolved example_store_resolved = resolved example_store \<and>
   map fst (active example_store_resolved) = map fst (active example_store) \<and>
   \<not> list_ex (has_market ''m9'') (active example_store) \<and>
   handleMarketResolution ''m9'' ''T1'' ''T2'' example_store = (example_store, [])"
proof -
  note found = resolution_changes_one_market [OF example_resolution]
  have ex: "list_ex (has_market ''m2'') (active example_store)"
    by (simp add: has_market_def example_store_def)
  have nex: "\<not> list_ex (has_market ''m9'') (active example_store)"
    by (simp add: has_market_def example_store_def)
  obtain s' :: "(unit, unit) events_store" and out :: "unit resolution_notice list"
    where r: "handleMarketResolution ''m9'' ''T1'' ''T2'' example_store = (s', out)"
    by (cases "handleMarketResolution ''m9'' ''T1'' ''T2'' example_store")
  from resolution_changes_one_market [OF r] nex have "s' = example_store \<and> out = []"
    by blast
  with r have absent: "handleMarketResolution ''m9'' ''T1'' ''T2'' example_store = (example_store, [])"
    by simp
  from found have f1: "resolved example_store_resolved = resolved example_store"
    and f2: "map fst (active example_store_resolved) = map fst (active example_store)"
    by blast+
  from example_resolution ex f1 f2 nex absent show ?thesis by (intro conjI)
qed

end
